theory Spec2Isabelle
  imports Complex_Main "HOL-Library.Sublist" "HOL-Library.Multiset" "HOL-Library.Log_Nat" "HOL-Library.AList"
begin

section \<open>Hint labels of qutebrowser's HintManager\<close>

text \<open>
  The development follows \<^verbatim>\<open>qutebrowser/browser/hints.py\<close>. Python exceptions are
  values of the type \<open>error\<close>; a computation that may also fail to return has the type
  \<open>(error + 'a) option\<close>, where \<open>None\<close> stands for a loop that never ends.
\<close>

datatype error = ValueError | ZeroDivisionError | KeyError | AttributeError | TypeError

subsection \<open>\<^verbatim>\<open>_number_to_hint_str\<close>\<close>

text \<open>
  The \<^verbatim>\<open>while True\<close> loop of \<^verbatim>\<open>_number_to_hint_str\<close>: one digit is put in front of
  \<open>hintstr\<close> per round, and the loop is left once the remaining number is not positive.
  With a one-character charset and a positive number the Python loop never ends, with an
  empty charset the first \<^verbatim>\<open>%\<close> raises.
\<close>

partial_function (option) number_to_hint_loop :: "int \<Rightarrow> string \<Rightarrow> string \<Rightarrow> (error + string) option" where
  "number_to_hint_loop number chars hintstr =
     (let base = int (length chars) in
      if base = 0 then Some (Inl ZeroDivisionError)
      else
        let remainder = number mod base;
            hintstr' = chars ! nat remainder # hintstr;
            number' = (number - remainder) div base
        in if number' \<le> 0 then Some (Inr hintstr')
           else number_to_hint_loop number' chars hintstr')"

declare number_to_hint_loop.simps [code]

text \<open>The whole function: the loop, then the padding with the first character.\<close>

definition number_to_hint_str :: "int \<Rightarrow> string \<Rightarrow> int \<Rightarrow> (error + string) option" where
  "number_to_hint_str number chars digits =
     (case number_to_hint_loop number chars [] of
        None \<Rightarrow> None
      | Some (Inl e) \<Rightarrow> Some (Inl e)
      | Some (Inr hintstr) \<Rightarrow>
          Some (Inr (replicate (nat (digits - int (length hintstr))) (chars ! 0) @ hintstr)))"

subsection \<open>\<^verbatim>\<open>_shuffle_hints\<close>\<close>

text \<open>
  One round of the \<^verbatim>\<open>enumerate\<close> loop: the hint at position \<open>i\<close> is appended to
  bucket \<open>i mod len(buckets)\<close>.
\<close>

definition bucket_append :: "nat \<times> 'a \<Rightarrow> 'a list list \<Rightarrow> 'a list list" where
  "bucket_append ih buckets =
     buckets[fst ih mod length buckets := buckets ! (fst ih mod length buckets) @ [snd ih]]"

text \<open>
  With no bucket at all the first \<^verbatim>\<open>i % len(buckets)\<close> raises; with no hint the loop
  body is never entered.
\<close>

definition shuffle_hints :: "'a list \<Rightarrow> nat \<Rightarrow> error + 'a list" where
  "shuffle_hints hints len =
     (let buckets = replicate len [] in
      if hints \<noteq> [] \<and> len = 0 then Inl ZeroDivisionError
      else Inr (concat (fold bucket_append (enumerate 0 hints) buckets)))"

subsection \<open>\<^verbatim>\<open>_hint_strings\<close>\<close>

text \<open>
  \<^verbatim>\<open>for i in ...: strings.append(self._number_to_hint_str(i, chars, digits))\<close>, stopping
  at the first call that raises or does not return.
\<close>

fun hint_strs :: "string \<Rightarrow> int \<Rightarrow> int list \<Rightarrow> (error + string list) option" where
  "hint_strs chars digits [] = Some (Inr [])"
| "hint_strs chars digits (i # is) =
     (case number_to_hint_str i chars digits of
        None \<Rightarrow> None
      | Some (Inl e) \<Rightarrow> Some (Inl e)
      | Some (Inr s) \<Rightarrow>
          (case hint_strs chars digits is of
             None \<Rightarrow> None
           | Some (Inl e) \<Rightarrow> Some (Inl e)
           | Some (Inr ss) \<Rightarrow> Some (Inr (s # ss))))"

text \<open>
  \<^verbatim>\<open>_hint_strings\<close>. The charset is the configuration value \<^verbatim>\<open>hints.chars\<close>, here the
  argument \<open>chars\<close>. The library call \<^verbatim>\<open>math.ceil(math.log(len(elems), len(chars)))\<close>
  works on double-precision floats; its value on a positive count and a charset of at
  least two characters is the argument \<open>ceil_log\<close>, a function of the two lengths (a
  natural number: the logarithm of such a count is not negative, that of such a base is
  positive), and what the call raises otherwise is written out: \<^verbatim>\<open>ValueError\<close> for the logarithm of
  zero (the count is looked at first), \<^verbatim>\<open>ZeroDivisionError\<close> for base one. The quotient
  \<^verbatim>\<open>math.floor((len(chars) ** needed - len(elems)) / len(chars))\<close> is the floor of a
  float division of two integers; it is the integer floor division as long as the
  dividend is below \<open>2 ^ 53\<close>, and it is modelled as such.
\<close>

definition hint_strings :: "(nat \<Rightarrow> nat \<Rightarrow> nat) \<Rightarrow> 'a list \<Rightarrow> string \<Rightarrow> (error + string list) option" where
  "hint_strings ceil_log elems chars =
     (if length elems = 0 \<or> length chars = 0 then Some (Inl ValueError)
      else if length chars = 1 then Some (Inl ZeroDivisionError)
      else
        let needed = int (ceil_log (length elems) (length chars));
            short_count = (int (length chars) ^ nat needed - int (length elems)) div int (length chars);
            long_count = int (length elems) - short_count;
            start = short_count * int (length chars)
        in case hint_strs chars (needed - 1) (if needed > 1 then [0..short_count - 1] else []) of
             None \<Rightarrow> None
           | Some (Inl e) \<Rightarrow> Some (Inl e)
           | Some (Inr shorts) \<Rightarrow>
               (case hint_strs chars needed [start..start + long_count - 1] of
                  None \<Rightarrow> None
                | Some (Inl e) \<Rightarrow> Some (Inl e)
                | Some (Inr longs) \<Rightarrow> Some (shuffle_hints (shorts @ longs) (length chars))))"

text \<open>
  The exact value \<open>\<lceil>log\<^bsub>k\<^esub> n\<rceil>\<close>: the least \<open>d\<close> with \<open>n \<le> k ^ d\<close>, found by counting up.
\<close>

function least_power_from :: "nat \<Rightarrow> nat \<Rightarrow> nat \<Rightarrow> nat" where
  "least_power_from k n d = (if k < 2 \<or> n \<le> k ^ d then d else least_power_from k n (Suc d))"
  by pat_completeness auto
termination
proof (relation "measure (\<lambda>(k, n, d). n - d)")
  show "wf (measure (\<lambda>(k, n, d). n - d))" by simp
next
  fix k n d :: nat
  assume a: "\<not> (k < 2 \<or> n \<le> k ^ d)"
  then have "2 ^ d \<le> k ^ d" by (simp add: power_mono)
  moreover have "d < 2 ^ d" by (rule less_exp)
  ultimately have "d < n" using a by linarith
  then show "((k, n, Suc d), (k, n, d)) \<in> measure (\<lambda>(k, n, d). n - d)" by simp
qed

declare least_power_from.simps [simp del]

definition exact_ceil_log :: "nat \<Rightarrow> nat \<Rightarrow> nat" where
  "exact_ceil_log n k = least_power_from k n 0"

subsection \<open>Reading a label back\<close>

text \<open>
  The inverse of the digit extraction, as the specification words it: the position of a
  character in the charset is its digit value, the first character of the label is the
  most significant digit. The source has no such function; it is the measure the
  statements about label values are phrased in.
\<close>

definition char_index :: "string \<Rightarrow> char \<Rightarrow> nat" where
  "char_index chars c = length (takeWhile (\<lambda>x. x \<noteq> c) chars)"

definition hint_str_to_number :: "string \<Rightarrow> string \<Rightarrow> int" where
  "hint_str_to_number chars label =
     foldl (\<lambda>acc c. acc * int (length chars) + int (char_index chars c)) 0 label"

subsection \<open>What the statements about \<^verbatim>\<open>_hint_strings\<close> are phrased in\<close>

text \<open>
  The value of \<^verbatim>\<open>short_count\<close> in \<^verbatim>\<open>_hint_strings\<close>, as a function of the two lengths.
\<close>

definition short_count :: "(nat \<Rightarrow> nat \<Rightarrow> nat) \<Rightarrow> nat \<Rightarrow> nat \<Rightarrow> int" where
  "short_count ceil_log n k = (int k ^ ceil_log n k - int n) div int k"

text \<open>
  What is asked of the rounded logarithm: the digits it gives are enough for the
  count, \<open>n \<le> k ^ d\<close>, and not more than one digit too many, which only a count that
  is an exact power of \<open>k\<close> allows, \<open>k ^ d \<le> k * n\<close>. The exact \<open>\<lceil>log\<^bsub>k\<^esub> n\<rceil>\<close> meets
  it, and so does a float quotient that lands just above an integer at an exact power.
\<close>

definition ceil_log_ok :: "(nat \<Rightarrow> nat \<Rightarrow> nat) \<Rightarrow> nat \<Rightarrow> nat \<Rightarrow> bool" where
  "ceil_log_ok ceil_log n k \<longleftrightarrow> n \<le> k ^ ceil_log n k \<and> k ^ ceil_log n k \<le> k * n"

subsection \<open>What the statement about the shuffled order is phrased in\<close>

text \<open>
  The positions of the labels that begin with a given character, in ascending order, and
  the distances between neighbours in such a list of positions.
\<close>

definition head_positions :: "char \<Rightarrow> string list \<Rightarrow> nat list" where
  "head_positions c labels =
     filter (\<lambda>i. labels ! i \<noteq> [] \<and> hd (labels ! i) = c) [0..<length labels]"

fun gaps :: "nat list \<Rightarrow> nat list" where
  "gaps [] = []"
| "gaps [x] = []"
| "gaps (x # y # ys) = (y - x) # gaps (y # ys)"

section \<open>The hint session of HintManager\<close>

subsection \<open>Elements, frames and links, as far as the manager looks at them\<close>

text \<open>
  The web view belongs to Qt. An element is what the manager asks a \<^verbatim>\<open>QWebElement\<close>:
  whether it has the attribute \<^verbatim>\<open>href\<close>, the attribute's text (empty when it is
  missing), the scheme of that text read as a URL and whether that URL is relative, and
  the rectangle \<^verbatim>\<open>geometry()\<close>.
\<close>

record rect =
  rect_x1 :: int
  rect_y1 :: int
  rect_x2 :: int
  rect_y2 :: int

text \<open>
  A \<^verbatim>\<open>QRect\<close> keeps its two corners, a \<^verbatim>\<open>QPoint\<close> its two coordinates, as 32-bit
  integers; sums and differences of coordinates wrap around.
\<close>

definition wrap32 :: "int \<Rightarrow> int" where
  "wrap32 i = (i + 2 ^ 31) mod 2 ^ 32 - 2 ^ 31"

text \<open>\<^verbatim>\<open>QRect.isValid\<close>: the left edge is not right of the right edge, and so for the top.\<close>

definition is_valid :: "rect \<Rightarrow> bool" where
  "is_valid r \<longleftrightarrow> rect_x1 r \<le> rect_x2 r \<and> rect_y1 r \<le> rect_y2 r"

text \<open>\<^verbatim>\<open>QRect.translate\<close>: both corners are moved.\<close>

definition translate :: "rect \<Rightarrow> int \<times> int \<Rightarrow> rect" where
  "translate r p =
     r\<lparr>rect_x1 := wrap32 (rect_x1 r + fst p), rect_y1 := wrap32 (rect_y1 r + snd p),
       rect_x2 := wrap32 (rect_x2 r + fst p), rect_y2 := wrap32 (rect_y2 r + snd p)\<rparr>"

text \<open>
  \<^verbatim>\<open>QRect.contains\<close> on a point, edges included: in each direction the two edges are
  swapped first when the second lies more than one before the first.
\<close>

definition contains :: "rect \<Rightarrow> int \<times> int \<Rightarrow> bool" where
  "contains r p =
     (let l = (if rect_x2 r < rect_x1 r - 1 then rect_x2 r else rect_x1 r);
          r' = (if rect_x2 r < rect_x1 r - 1 then rect_x1 r else rect_x2 r);
          t = (if rect_y2 r < rect_y1 r - 1 then rect_y2 r else rect_y1 r);
          b = (if rect_y2 r < rect_y1 r - 1 then rect_y1 r else rect_y2 r)
      in \<not> (fst p < l \<or> fst p > r') \<and> \<not> (snd p < t \<or> snd p > b))"

record elem =
  elem_id :: nat
  has_href :: bool
  href :: string
  href_scheme :: string
  href_relative :: bool
  geometry :: rect

text \<open>
  A frame answers \<^verbatim>\<open>findAllElements\<close> for a CSS selector (the selectors it has an
  answer for are listed with their elements; any other selector finds nothing), and has
  a geometry and a scroll position.
\<close>

record frame =
  frame_id :: nat
  found :: "(string \<times> elem list) list"
  frame_geometry :: rect
  scroll_position :: "int \<times> int"

definition find_all_elements :: "frame \<Rightarrow> string \<Rightarrow> elem list" where
  "find_all_elements fr selector = (case map_of (found fr) selector of None \<Rightarrow> [] | Some es \<Rightarrow> es)"

text \<open>A \<^verbatim>\<open>QUrl\<close>: built from a text, or a relative one resolved against a base.\<close>

datatype url = QUrl string | Resolved url string

text \<open>The \<^verbatim>\<open>span\<close> that \<^verbatim>\<open>_draw_label\<close> appends to the document for an element.\<close>

datatype label = Label nat string

text \<open>
  What the manager does to the world outside it, in the order it does it: messages, the
  signals it emits, clicks, the clipboard, and what it draws.
\<close>

datatype event =
    MessageError string
  | MessageText string
  | MessageInfo string
  | MessageClear
  | HintStringsUpdated "string list"
  | SetOpenTarget string
  | MouseClick elem "int \<times> int"
  | ClipboardSetText url bool
  | SetCmdText string url
  | DrawLabel elem string
  | RemoveLabel label
  | SetInnerXml label string string

datatype outcome = Returned | Raised error

subsection \<open>The manager's state\<close>

text \<open>
  The attributes \<^verbatim>\<open>_elems\<close>, \<^verbatim>\<open>_frame\<close>, \<^verbatim>\<open>_target\<close> and \<^verbatim>\<open>_baseurl\<close>; the dictionary
  \<^verbatim>\<open>_elems\<close> is a list of pairs in insertion order. Two things outside the object that
  its signals change are kept with them: the input mode, which the signal
  \<^verbatim>\<open>set_mode\<close> sets, and the frames whose \<^verbatim>\<open>contentsSizeChanged\<close> is connected to the
  manager's slot.
\<close>

record hint_manager =
  elems :: "(string \<times> elem \<times> label) list"
  frame :: "frame option"
  target :: "string option"
  baseurl :: "url option"
  input_mode :: string
  connections :: "nat list"

text \<open>\<^verbatim>\<open>__init__\<close>, in a browser that is in normal mode.\<close>

definition init :: hint_manager where
  "init = \<lparr>elems = [], frame = None, target = None, baseurl = None,
           input_mode = ''normal'', connections = []\<rparr>"

definition SELECTORS :: "(string \<times> string) list" where
  "SELECTORS =
     [(''all'', ''a, textarea, select, input:not([type=hidden]), button, frame, iframe, [onclick], [onmousedown], [role=link], [role=option], [role=button], img''),
      (''links'', ''a''),
      (''images'', ''img''),
      (''editable'', ''input[type=text], input[type=email], input[type=url],input[type=tel], input[type=number], input[type=password], input[type=search], textarea''),
      (''url'', ''[src], [href]'')]"

text \<open>\<^verbatim>\<open>FILTERS.get(mode, lambda e: True)\<close>.\<close>

definition filterfunc :: "string \<Rightarrow> elem \<Rightarrow> bool" where
  "filterfunc mode e =
     (if mode = ''links'' then has_href e \<and> href_scheme e \<noteq> ''javascript'' else True)"

definition texts :: "(string \<times> string) list" where
  "texts =
     [(''normal'', ''Follow hint...''),
      (''tab'', ''Follow hint in new tab...''),
      (''bgtab'', ''Follow hint in background tab...''),
      (''yank'', ''Yank hint to clipboard...''),
      (''yank_primary'', ''Yank hint to primary selection...''),
      (''cmd'', ''Set hint in commandline...''),
      (''cmd_tab'', ''Set hint in commandline as new tab...''),
      (''cmd_bgtab'', ''Set hint in commandline as background tab...''),
      (''rapid'', ''Follow hint (rapid mode)...'')]"

subsection \<open>\<^verbatim>\<open>start\<close>\<close>

text \<open>The test each element passes in the loop of \<^verbatim>\<open>start\<close> to count as visible.\<close>

definition visible :: "frame \<Rightarrow> string \<Rightarrow> elem \<Rightarrow> bool" where
  "visible fr mode e \<longleftrightarrow>
     filterfunc mode e
     \<and> \<not> (\<not> is_valid (geometry e) \<and> rect_x1 (geometry e) = 0)
     \<and> contains (translate (frame_geometry fr) (scroll_position fr))
          (rect_x1 (geometry e), rect_y1 (geometry e))"

text \<open>
  \<^verbatim>\<open>for e, string in zip(visible_elems, strings)\<close>: the label is drawn and the pair is
  stored under the string.
\<close>

definition store_hint :: "elem \<times> string \<Rightarrow> (string \<times> elem \<times> label) list \<Rightarrow> (string \<times> elem \<times> label) list" where
  "store_hint es d = AList.update (snd es) (fst es, Label (elem_id (fst es)) (snd es)) d"

text \<open>
  \<^verbatim>\<open>start\<close>. The three attributes are assigned first. An unknown mode raises at
  \<^verbatim>\<open>SELECTORS[mode]\<close>, an unknown target at \<^verbatim>\<open>texts[target]\<close>, and what
  \<^verbatim>\<open>_hint_strings\<close> raises goes through. With no visible element the error message is
  shown and the function returns.
\<close>

definition start :: "(nat \<Rightarrow> nat \<Rightarrow> nat) \<Rightarrow> string \<Rightarrow> hint_manager \<Rightarrow> frame \<Rightarrow> url \<Rightarrow> string \<Rightarrow> string
    \<Rightarrow> (outcome \<times> event list \<times> hint_manager) option" where
  "start ceil_log chars self frame' baseurl' mode target' =
     (let self1 = self\<lparr>target := Some target', baseurl := Some baseurl', frame := Some frame'\<rparr> in
      case map_of SELECTORS mode of
        None \<Rightarrow> Some (Raised KeyError, [], self1)
      | Some selector \<Rightarrow>
          let visible_elems = filter (visible frame' mode) (find_all_elements frame' selector) in
          if visible_elems = [] then Some (Returned, [MessageError ''No elements found.''], self1)
          else
            (case map_of texts target' of
               None \<Rightarrow> Some (Raised KeyError, [], self1)
             | Some text \<Rightarrow>
                 (case hint_strings ceil_log visible_elems chars of
                    None \<Rightarrow> None
                  | Some (Inl e) \<Rightarrow> Some (Raised e, [MessageText text], self1)
                  | Some (Inr strings) \<Rightarrow>
                      Some (Returned,
                            [MessageText text]
                              @ map (\<lambda>es. DrawLabel (fst es) (snd es)) (zip visible_elems strings)
                              @ [HintStringsUpdated strings],
                            self1\<lparr>elems := fold store_hint (zip visible_elems strings) (elems self1),
                                  connections := connections self1 @ [frame_id frame'],
                                  input_mode := ''hint''\<rparr>))))"

subsection \<open>\<^verbatim>\<open>stop\<close>\<close>

text \<open>
  \<^verbatim>\<open>stop\<close>. The labels are removed first. \<^verbatim>\<open>self._frame.contentsSizeChanged\<close> raises
  \<^verbatim>\<open>AttributeError\<close> when \<^verbatim>\<open>_frame\<close> is \<^verbatim>\<open>None\<close>. PyQt's \<^verbatim>\<open>disconnect\<close> of a slot
  takes away every connection of the signal to that slot, and raises \<^verbatim>\<open>TypeError\<close> when
  there is none. In both cases of raising no attribute has been assigned yet.
\<close>

definition stop :: "hint_manager \<Rightarrow> outcome \<times> event list \<times> hint_manager" where
  "stop self =
     (let removed = map (\<lambda>kv. RemoveLabel (snd (snd kv))) (elems self) in
      case frame self of
        None \<Rightarrow> (Raised AttributeError, removed, self)
      | Some fr \<Rightarrow>
          if frame_id fr \<notin> set (connections self) then (Raised TypeError, removed, self)
          else (Returned, removed @ [MessageClear],
                self\<lparr>connections := removeAll (frame_id fr) (connections self),
                     elems := [], target := None, frame := None, input_mode := ''normal''\<rparr>))"

subsection \<open>\<^verbatim>\<open>handle_partial_key\<close>\<close>

text \<open>
  The first loop highlights the typed part of every label that starts with \<open>keystr\<close>,
  removes the other labels from the document and collects their strings; the second loop
  deletes the collected strings from \<^verbatim>\<open>_elems\<close>.
\<close>

definition handle_partial_key :: "string \<Rightarrow> hint_manager \<Rightarrow> event list \<times> hint_manager" where
  "handle_partial_key keystr self =
     (let events = map (\<lambda>kv. if prefix keystr (fst kv)
                            then SetInnerXml (snd (snd kv)) (take (length keystr) (fst kv))
                                   (drop (length keystr) (fst kv))
                            else RemoveLabel (snd (snd kv))) (elems self);
          delete = map fst (filter (\<lambda>kv. \<not> prefix keystr (fst kv)) (elems self))
      in (events, self\<lparr>elems := fold AList.delete delete (elems self)\<rparr>))"

subsection \<open>\<^verbatim>\<open>fire\<close>\<close>

definition require_link :: "string list" where
  "require_link = [''yank'', ''yank_primary'', ''cmd'', ''cmd_tab'', ''cmd_bgtab'']"

text \<open>
  \<^verbatim>\<open>_resolve_link\<close>: \<^verbatim>\<open>None\<close> for an empty \<^verbatim>\<open>href\<close>; a relative link is resolved
  against \<^verbatim>\<open>_baseurl\<close>, which raises when that is \<^verbatim>\<open>None\<close>.
\<close>

definition resolve_link :: "hint_manager \<Rightarrow> elem \<Rightarrow> error + url option" where
  "resolve_link self e =
     (if href e = [] then Inr None
      else if href_relative e then
        (case baseurl self of
           None \<Rightarrow> Inl AttributeError
         | Some b \<Rightarrow> Inr (Some (Resolved b (href e))))
      else Inr (Some (QUrl (href e))))"

text \<open>
  The point of the click in \<^verbatim>\<open>_click\<close>: the element's top left corner less the frame's
  scroll position.
\<close>

definition click_point :: "frame \<Rightarrow> elem \<Rightarrow> int \<times> int" where
  "click_point fr e =
     (wrap32 (rect_x1 (geometry e) - fst (scroll_position fr)),
      wrap32 (rect_y1 (geometry e) - snd (scroll_position fr)))"

text \<open>
  \<^verbatim>\<open>_click\<close>: the signal \<^verbatim>\<open>set_open_target\<close>, then the mouse events at that point;
  \<^verbatim>\<open>self._frame.scrollPosition()\<close> raises when \<^verbatim>\<open>_frame\<close> is \<^verbatim>\<open>None\<close>.
\<close>

definition click :: "hint_manager \<Rightarrow> elem \<Rightarrow> string \<Rightarrow> outcome \<times> event list" where
  "click self e target' =
     (case frame self of
        None \<Rightarrow> (Raised AttributeError, [SetOpenTarget target'])
      | Some fr \<Rightarrow> (Returned, [SetOpenTarget target', MouseClick e (click_point fr e)]))"

definition yank :: "url \<Rightarrow> bool \<Rightarrow> event list" where
  "yank link sel =
     [ClipboardSetText link sel,
      MessageInfo (''URL yanked to '' @ (if sel then ''primary selection'' else ''clipboard''))]"

definition commands :: "(string \<times> string) list" where
  "commands = [(''cmd'', ''open''), (''cmd_tab'', ''tabopen''), (''cmd_bgtab'', ''backtabopen'')]"

text \<open>
  The \<^verbatim>\<open>if\<close>/\<^verbatim>\<open>elif\<close> chain of \<^verbatim>\<open>fire\<close> that acts on the element. \<open>link\<close> is the
  resolved link; it is there whenever the target requires one, and the two branches that
  read it are branches for such targets. A target that is \<^verbatim>\<open>None\<close> is in none of the lists.
\<close>

definition fire_action :: "hint_manager \<Rightarrow> elem \<Rightarrow> url option \<Rightarrow> outcome \<times> event list" where
  "fire_action self e link =
     (case target self of
        None \<Rightarrow> (Returned, [])
      | Some t \<Rightarrow>
          if t \<in> set [''normal'', ''tab'', ''bgtab''] then click self e t
          else if t = ''rapid'' then click self e ''bgtab''
          else if t \<in> set [''yank'', ''yank_primary''] then
            (Returned, yank (the link) (t = ''yank_primary''))
          else if t \<in> set [''cmd'', ''cmd_tab'', ''cmd_bgtab''] then
            (Returned, [SetCmdText (the (map_of commands t)) (the link)])
          else (Returned, []))"

text \<open>The action, and then \<^verbatim>\<open>stop\<close> unless the target is \<^verbatim>\<open>rapid\<close>.\<close>

definition fire_finish :: "hint_manager \<Rightarrow> elem \<Rightarrow> url option \<Rightarrow> outcome \<times> event list \<times> hint_manager" where
  "fire_finish self e link =
     (case fire_action self e link of
        (Raised err, events) \<Rightarrow> (Raised err, events, self)
      | (Returned, events) \<Rightarrow>
          if target self \<noteq> Some ''rapid'' then
            (case stop self of (out, events', self') \<Rightarrow> (out, events @ events', self'))
          else (Returned, events, self))"

text \<open>
  \<^verbatim>\<open>fire\<close>. \<^verbatim>\<open>self._elems[keystr]\<close> raises \<^verbatim>\<open>KeyError\<close> for a string that is not a key.
  For a target that requires a link and an element without one the error message is
  shown and the function returns.
\<close>

definition fire :: "string \<Rightarrow> hint_manager \<Rightarrow> outcome \<times> event list \<times> hint_manager" where
  "fire keystr self =
     (case map_of (elems self) keystr of
        None \<Rightarrow> (Raised KeyError, [], self)
      | Some el \<Rightarrow>
          if (case target self of None \<Rightarrow> False | Some t \<Rightarrow> t \<in> set require_link) then
            (case resolve_link self (fst el) of
               Inl err \<Rightarrow> (Raised err, [], self)
             | Inr None \<Rightarrow>
                 (Returned, [MessageError ''No suitable link found for this element.''], self)
             | Inr (Some link) \<Rightarrow> fire_finish self (fst el) (Some link))
          else fire_finish self (fst el) None)"

subsection \<open>The states of a session\<close>

text \<open>
  Active is what a \<^verbatim>\<open>start\<close> that found elements leaves behind: the browser is in hint
  mode, the frame is set and connected, the target is one of the nine known ones and the
  base URL is set. Inactive is what \<^verbatim>\<open>__init__\<close> and \<^verbatim>\<open>stop\<close> leave behind.
\<close>

definition active :: "hint_manager \<Rightarrow> bool" where
  "active self \<longleftrightarrow>
     input_mode self = ''hint''
     \<and> (case frame self of None \<Rightarrow> False | Some fr \<Rightarrow> frame_id fr \<in> set (connections self))
     \<and> (case target self of None \<Rightarrow> False | Some t \<Rightarrow> t \<in> set (map fst texts))
     \<and> baseurl self \<noteq> None"

definition inactive :: "hint_manager \<Rightarrow> bool" where
  "inactive self \<longleftrightarrow>
     input_mode self = ''normal'' \<and> elems self = [] \<and> frame self = None \<and> target self = None"

subsection \<open>A sample page\<close>

text \<open>
  Three links and a button without \<^verbatim>\<open>href\<close>, all on screen; the page has no image.
\<close>

definition sample_elem :: "nat \<Rightarrow> string \<Rightarrow> elem" where
  "sample_elem i h =
     \<lparr>elem_id = i, has_href = (h \<noteq> []), href = h, href_scheme = (if h = [] then [] else ''http''),
      href_relative = False,
      geometry = \<lparr>rect_x1 = 10, rect_y1 = 20 * int i, rect_x2 = 69, rect_y2 = 20 * int i + 11\<rparr>\<rparr>"

definition sample_links :: "elem list" where
  "sample_links = [sample_elem 1 ''http://a/'', sample_elem 2 ''http://b/'', sample_elem 3 ''http://c/'']"

definition sample_frame :: frame where
  "sample_frame =
     \<lparr>frame_id = 7,
      found = [(''a'', sample_links),
               (the (map_of SELECTORS ''all''), sample_links @ [sample_elem 4 []])],
      frame_geometry = \<lparr>rect_x1 = 0, rect_y1 = 0, rect_x2 = 799, rect_y2 = 599\<rparr>,
      scroll_position = (0, 0)\<rparr>"

text \<open>
  The manager after \<^verbatim>\<open>start\<close> on the sample page with the charset \<^verbatim>\<open>ab\<close>, for a given
  mode and target. For the mode \<^verbatim>\<open>links\<close> the labels are \<^verbatim>\<open>aa\<close>, \<^verbatim>\<open>ba\<close> and \<^verbatim>\<open>ab\<close>; for
  \<^verbatim>\<open>all\<close> they are \<^verbatim>\<open>aa\<close>, \<^verbatim>\<open>ba\<close>, \<^verbatim>\<open>ab\<close> and, for the button, \<^verbatim>\<open>bb\<close>.
\<close>

definition sample_started :: "string \<Rightarrow> string \<Rightarrow> hint_manager" where
  "sample_started mode target' =
     (case start exact_ceil_log ''ab'' init sample_frame (QUrl ''http://page/'') mode target' of
        Some (out, events, self) \<Rightarrow> self
      | None \<Rightarrow> init)"

subsection \<open>The order of the shuffle, by position\<close>

text \<open>
  The positions of a list of \<open>n\<close> hints that fall into bucket \<open>j\<close> of \<open>len\<close> buckets, and
  the positions in the order in which \<^verbatim>\<open>_shuffle_hints\<close> lists them.
\<close>

definition bucket_positions :: "nat \<Rightarrow> nat \<Rightarrow> nat \<Rightarrow> nat list" where
  "bucket_positions len n j = filter (\<lambda>p. p mod len = j) [0..<n]"

definition shuffled_positions :: "nat \<Rightarrow> nat \<Rightarrow> nat list" where
  "shuffled_positions len n = concat (map (bucket_positions len n) [0..<len])"

text \<open>The number of positions in the buckets before bucket \<open>j\<close>.\<close>

definition bucket_offset :: "nat \<Rightarrow> nat \<Rightarrow> nat \<Rightarrow> nat" where
  "bucket_offset len n j = length (concat (map (bucket_positions len n) [0..<j]))"

text \<open>
  Where the shuffle puts position \<open>p\<close> of the generated order: after the buckets before
  bucket \<open>p mod len\<close>, at place \<open>p div len\<close> of its own bucket.
\<close>

definition shuffled_index :: "nat \<Rightarrow> nat \<Rightarrow> nat \<Rightarrow> nat" where
  "shuffled_index len n p = bucket_offset len n (p mod len) + p div len"


section \<open>Properties of the label generator\<close>


lemma char_index_nth: "distinct chars \<Longrightarrow> i < length chars \<Longrightarrow> char_index chars (chars ! i) = i"
proof (induction chars arbitrary: i)
  case Nil
  then show ?case by simp
next
  case (Cons c cs)
  show ?case
  proof (cases i)
    case 0
    then show ?thesis by (simp add: char_index_def)
  next
    case (Suc j)
    with Cons.prems have "cs ! j \<noteq> c" by auto
    moreover have "char_index cs (cs ! j) = j" using Cons Suc by simp
    ultimately show ?thesis using Suc by (simp add: char_index_def)
  qed
qed

lemma char_index_less: "c \<in> set chars \<Longrightarrow> char_index chars c < length chars"
  by (induction chars) (auto simp: char_index_def)

lemma foldl_digits_shift:
  "foldl (\<lambda>acc c. acc * k + f c) a ys = a * k ^ length ys + foldl (\<lambda>acc c. acc * k + f c) 0 ys" for k :: int
proof (induction ys arbitrary: a)
  case Nil
  then show ?case by simp
next
  case (Cons y ys)
  have "foldl (\<lambda>acc c. acc * k + f c) a (y # ys) = (a * k + f y) * k ^ length ys + foldl (\<lambda>acc c. acc * k + f c) 0 ys"
    using Cons.IH [of "a * k + f y"] by simp
  also have "foldl (\<lambda>acc c. acc * k + f c) 0 (y # ys) = f y * k ^ length ys + foldl (\<lambda>acc c. acc * k + f c) 0 ys"
    using Cons.IH [of "f y"] by simp
  ultimately show ?case by (simp add: algebra_simps)
qed

lemma hint_str_to_number_append:
  "hint_str_to_number chars (xs @ ys) =
     hint_str_to_number chars xs * int (length chars) ^ length ys + hint_str_to_number chars ys"
  unfolding hint_str_to_number_def foldl_append
  by (rule foldl_digits_shift)

lemma hint_str_to_number_single: "hint_str_to_number chars [c] = int (char_index chars c)"
  by (simp add: hint_str_to_number_def)

lemma hint_str_to_number_Nil: "hint_str_to_number chars [] = 0"
  by (simp add: hint_str_to_number_def)

lemma hint_str_to_number_zeros:
  "0 < length chars \<Longrightarrow> hint_str_to_number chars (replicate p (chars ! 0)) = 0"
proof (induction p)
  case 0
  then show ?case by (simp add: hint_str_to_number_Nil)
next
  case (Suc p)
  have "char_index chars (chars ! 0) = 0"
    using Suc.prems by (cases chars) (simp_all add: char_index_def)
  then show ?case
    using Suc hint_str_to_number_append [of chars "[chars ! 0]" "replicate p (chars ! 0)"]
    by (simp add: hint_str_to_number_single)
qed

lemma number_to_hint_loop_digits:
  assumes "2 \<le> length chars" "0 \<le> n"
  shows "\<exists>s. number_to_hint_loop n chars acc = Some (Inr (s @ acc)) \<and> s \<noteq> [] \<and> set s \<subseteq> set chars
           \<and> (length s = 1 \<or> int (length chars) ^ (length s - 1) \<le> n)
           \<and> n < int (length chars) ^ length s
           \<and> (distinct chars \<longrightarrow> hint_str_to_number chars s = n)"
  using assms(2)
proof (induction "nat n" arbitrary: n acc rule: less_induct)
  case less
  define k where "k = int (length chars)"
  have k2: "2 \<le> k" using assms(1) by (simp add: k_def)
  define r where "r = n mod k"
  define c where "c = chars ! nat r"
  define n' where "n' = (n - r) div k"
  have r_bounds: "0 \<le> r" "r < k" using k2 by (simp_all add: r_def)
  have n'_eq: "n' = n div k"
    using k2 by (simp add: n'_def r_def minus_mod_eq_mult_div)
  have n_eq: "n = n' * k + r" by (simp add: n'_eq r_def)
  have c_in: "c \<in> set chars" using r_bounds by (simp add: c_def k_def)
  have step: "number_to_hint_loop n chars acc =
                (if n' \<le> 0 then Some (Inr (c # acc)) else number_to_hint_loop n' chars (c # acc))"
  proof -
    have ne: "int (length chars) \<noteq> 0" using assms(1) by auto
    show ?thesis
      by (subst number_to_hint_loop.simps) (simp only: Let_def ne if_False k_def r_def c_def n'_def)
  qed
  have c_val: "distinct chars \<Longrightarrow> hint_str_to_number chars [c] = r"
    using r_bounds by (simp add: hint_str_to_number_single c_def char_index_nth k_def)
  show ?case
  proof (cases "n' \<le> 0")
    case True
    have "0 \<le> n'" using less.prems k2 by (simp add: n'_eq pos_imp_zdiv_nonneg_iff)
    with True have "n' = 0" by simp
    then have "n = r" using n_eq by simp
    then show ?thesis
      using step True c_in c_val r_bounds by (intro exI [of _ "[c]"]) (simp add: k_def)
  next
    case False
    then have n'_pos: "0 < n'" by simp
    have "n' * 2 \<le> n' * k" using n'_pos k2 by (intro mult_left_mono) simp_all
    then have "n' < n" using n_eq n'_pos r_bounds by linarith
    then have "nat n' < nat n" using n'_pos by simp
    from less.hyps [OF this, of "c # acc"] n'_pos
    obtain s where s: "number_to_hint_loop n' chars (c # acc) = Some (Inr (s @ c # acc))"
      "s \<noteq> []" "set s \<subseteq> set chars" "length s = 1 \<or> k ^ (length s - 1) \<le> n'"
      "n' < k ^ length s"
      "distinct chars \<longrightarrow> hint_str_to_number chars s = n'"
      by (auto simp: k_def)
    have lo: "k ^ length s \<le> n"
    proof (cases "length s = 1")
      case True
      have "1 * k \<le> n' * k" using n'_pos k2 by (intro mult_right_mono) simp_all
      then have "k \<le> n' * k" by (simp only: mult_1)
      moreover have "k ^ length s = k" using True by simp
      ultimately show ?thesis using n_eq r_bounds by linarith
    next
      case False
      with s(4) have "k ^ (length s - 1) \<le> n'" by simp
      then have "k ^ (length s - 1) * k \<le> n' * k" using k2 by (intro mult_right_mono) simp_all
      moreover have "k ^ (length s - 1) * k = k ^ length s"
        using s(2) by (cases "length s") simp_all
      ultimately show ?thesis using n_eq r_bounds by linarith
    qed
    have hi: "n < k ^ length (s @ [c])"
    proof -
      have "n' + 1 \<le> k ^ length s" using s(5) by simp
      then have "(n' + 1) * k \<le> k ^ length s * k" using k2 by (intro mult_right_mono) simp_all
      then have "n' * k + k \<le> k ^ length s * k" by (simp only: distrib_right mult_1)
      moreover have "k ^ length (s @ [c]) = k ^ length s * k" by simp
      ultimately show ?thesis using n_eq r_bounds by linarith
    qed
    have val: "distinct chars \<longrightarrow> hint_str_to_number chars (s @ [c]) = n"
      using s(6) c_val n_eq by (simp add: hint_str_to_number_append k_def)
    show ?thesis
      using step False s(1,2,3) c_in lo hi val
      by (intro exI [of _ "s @ [c]"]) (simp add: k_def)
  qed
qed


lemma number_to_hint_str_label:
  assumes "2 \<le> length chars" "0 \<le> n" "n < int (length chars) ^ nat digits"
  shows "\<exists>s. number_to_hint_str n chars digits = Some (Inr s) \<and> length s = max 1 (nat digits)
           \<and> set s \<subseteq> set chars \<and> (distinct chars \<longrightarrow> hint_str_to_number chars s = n)"
proof -
  define k where "k = int (length chars)"
  have k2: "1 < k" using assms(1) by (simp add: k_def)
  from number_to_hint_loop_digits [OF assms(1,2), of "[]"]
  obtain s where s: "number_to_hint_loop n chars [] = Some (Inr s)" "s \<noteq> []" "set s \<subseteq> set chars"
    "length s = 1 \<or> k ^ (length s - 1) \<le> n" "distinct chars \<longrightarrow> hint_str_to_number chars s = n"
    by (auto simp: k_def)
  define p where "p = nat (digits - int (length s))"
  define t where "t = replicate p (chars ! 0) @ s"
  have res: "number_to_hint_str n chars digits = Some (Inr t)"
    by (simp add: number_to_hint_str_def s(1) t_def p_def)
  have len_le: "length s \<le> max 1 (nat digits)"
  proof (cases "length s = 1")
    case True
    then show ?thesis by simp
  next
    case False
    with s(4) have "k ^ (length s - 1) < k ^ nat digits" using assms(3) by (simp add: k_def)
    then have "length s - 1 < nat digits" using k2 by (simp add: power_less_imp_less_exp)
    then show ?thesis by simp
  qed
  have "1 \<le> length s" using s(2) by (cases s) simp_all
  then have len: "length t = max 1 (nat digits)"
    using len_le by (auto simp: t_def p_def max_def)
  have "chars ! 0 \<in> set chars" using assms(1) by (cases chars) simp_all
  then have sub: "set t \<subseteq> set chars" using s(3) by (auto simp: t_def)
  have "0 < length chars" using assms(1) by linarith
  then have "hint_str_to_number chars (replicate p (chars ! 0)) = 0"
    by (rule hint_str_to_number_zeros)
  then have val: "distinct chars \<longrightarrow> hint_str_to_number chars t = n"
    using s(5) by (simp add: t_def hint_str_to_number_append)
  show ?thesis using res len sub val by blast
qed

lemma hint_strs_labels:
  assumes "2 \<le> length chars" "\<forall>i\<in>set is. 0 \<le> i \<and> i < int (length chars) ^ nat digits"
  shows "\<exists>ls. hint_strs chars digits is = Some (Inr ls) \<and> length ls = length is
           \<and> (\<forall>l\<in>set ls. length l = max 1 (nat digits) \<and> set l \<subseteq> set chars)
           \<and> (distinct chars \<longrightarrow> map (hint_str_to_number chars) ls = is)"
  using assms(2)
proof (induction "is")
  case Nil
  then show ?case by simp
next
  case (Cons i "is")
  from Cons.prems have "0 \<le> i" "i < int (length chars) ^ nat digits" by simp_all
  from number_to_hint_str_label [OF assms(1) this]
  obtain s where s: "number_to_hint_str i chars digits = Some (Inr s)" "length s = max 1 (nat digits)"
    "set s \<subseteq> set chars" "distinct chars \<longrightarrow> hint_str_to_number chars s = i"
    by blast
  from Cons.IH Cons.prems
  obtain ls where ls: "hint_strs chars digits is = Some (Inr ls)" "length ls = length is"
    "\<forall>l\<in>set ls. length l = max 1 (nat digits) \<and> set l \<subseteq> set chars"
    "distinct chars \<longrightarrow> map (hint_str_to_number chars) ls = is"
    by auto
  show ?case
    using s ls by (intro exI [of _ "s # ls"]) simp
qed

lemma mset_concat_bucket:
  assumes "j < length bs"
  shows "mset (concat (bs[j := bs ! j @ [h]])) = add_mset h (mset (concat bs))"
proof -
  have "bs = take j bs @ bs ! j # drop (Suc j) bs"
    using assms by (rule id_take_nth_drop)
  then have "concat bs = concat (take j bs) @ bs ! j @ concat (drop (Suc j) bs)"
    by (metis concat.simps(2) concat_append)
  moreover have "concat (bs[j := bs ! j @ [h]]) = concat (take j bs) @ (bs ! j @ [h]) @ concat (drop (Suc j) bs)"
    using assms by (simp add: upd_conv_take_nth_drop)
  ultimately show ?thesis by simp
qed

lemma length_bucket_append: "length (bucket_append ih bs) = length bs"
  by (simp add: bucket_append_def)

lemma mset_fold_bucket_append:
  assumes "bs \<noteq> []"
  shows "mset (concat (fold bucket_append (enumerate i hints) bs)) = mset hints + mset (concat bs)"
  using assms
proof (induction hints arbitrary: i bs)
  case Nil
  then show ?case by simp
next
  case (Cons h hints)
  have j: "i mod length bs < length bs" using Cons.prems by simp
  have ne: "bucket_append (i, h) bs \<noteq> []"
    using Cons.prems length_bucket_append [of "(i, h)" bs] by (metis length_0_conv)
  have "mset (concat (bucket_append (i, h) bs)) = add_mset h (mset (concat bs))"
    using mset_concat_bucket [OF j] by (simp add: bucket_append_def)
  then show ?case using Cons.IH [OF ne, of "Suc i"] by simp
qed

lemma shuffle_hints_mset:
  assumes "0 < len"
  shows "\<exists>r. shuffle_hints hints len = Inr r \<and> mset r = mset hints"
proof -
  have "replicate len ([]::'a list) \<noteq> []" using assms by simp
  from mset_fold_bucket_append [OF this, of 0 hints] assms
  show ?thesis by (simp add: shuffle_hints_def)
qed


lemma short_count_bounds:
  assumes k: "2 \<le> k" and n: "1 \<le> n" and ok: "ceil_log_ok ceil_log n k"
  shows "0 \<le> short_count ceil_log n k"
    and "short_count ceil_log n k < int n"
    and "ceil_log n k \<le> 1 \<Longrightarrow> short_count ceil_log n k = 0"
    and "1 < ceil_log n k \<Longrightarrow> short_count ceil_log n k < int k ^ (ceil_log n k - 1)"
    and "short_count ceil_log n k * int k + (int n - short_count ceil_log n k) \<le> int k ^ ceil_log n k"
proof -
  define d where "d = ceil_log n k"
  define P where "P = int k ^ d"
  define s where "s = short_count ceil_log n k"
  have s_def': "s = (P - int n) div int k" by (simp add: s_def short_count_def P_def d_def)
  have kpos: "0 < int k" using k by simp
  have "n \<le> k ^ d" "k ^ d \<le> k * n" using ok by (simp_all add: ceil_log_ok_def d_def)
  then have "int n \<le> int (k ^ d)" "int (k ^ d) \<le> int (k * n)" by (simp_all only: of_nat_le_iff)
  then have P: "int n \<le> P" "P \<le> int k * int n" by (simp_all add: P_def)
  have s0: "0 \<le> s" using P(1) kpos by (simp add: s_def' pos_imp_zdiv_nonneg_iff)
  have sk: "s * int k \<le> P - int n"
  proof -
    have "P - int n = (P - int n) div int k * int k + (P - int n) mod int k" by simp
    moreover have "0 \<le> (P - int n) mod int k" using kpos by simp
    ultimately show ?thesis unfolding s_def' by linarith
  qed
  have "s * int k < int n * int k"
  proof -
    have "s * int k \<le> int k * int n - int n" using sk P(2) by linarith
    moreover have "0 < int n" using n by simp
    ultimately show ?thesis by (simp add: mult.commute)
  qed
  then have sn: "s < int n" using kpos by (simp add: mult_less_cancel_right)
  show "0 \<le> short_count ceil_log n k" using s0 by (simp add: s_def)
  show "short_count ceil_log n k < int n" using sn by (simp add: s_def)
  show "short_count ceil_log n k * int k + (int n - short_count ceil_log n k) \<le> int k ^ ceil_log n k"
    using sk s0 by (simp add: s_def P_def d_def)
  show "short_count ceil_log n k = 0" if "ceil_log n k \<le> 1"
  proof -
    have "d = 0 \<or> d = 1" using that by (auto simp: d_def)
    then have "P \<le> int k" using kpos by (auto simp: P_def)
    then have "P - int n < int k" using n by simp
    moreover have "0 \<le> P - int n" using P(1) by simp
    ultimately have "(P - int n) div int k = 0" by (simp add: div_pos_pos_trivial)
    then show ?thesis by (simp add: s_def [symmetric] s_def')
  qed
  show "short_count ceil_log n k < int k ^ (ceil_log n k - 1)" if "1 < ceil_log n k"
  proof -
    have "P = int k ^ (d - 1) * int k"
      using that by (cases d) (simp_all add: P_def d_def)
    moreover have "s * int k < P" using sk n by simp
    ultimately have "s * int k < int k ^ (d - 1) * int k" by simp
    then have "s < int k ^ (d - 1)" using kpos by (simp add: mult_less_cancel_right)
    then show ?thesis by (simp add: s_def d_def)
  qed
qed


lemma hint_strings_structure:
  fixes es :: "'a list"
  assumes k: "2 \<le> length chars" and n: "es \<noteq> []"
    and ok: "ceil_log_ok ceil_log (length es) (length chars)"
  shows "\<exists>shorts longs r.
           hint_strings ceil_log es chars = Some (Inr r) \<and> mset r = mset (shorts @ longs)
           \<and> shuffle_hints (shorts @ longs) (length chars) = Inr r
           \<and> int (length shorts) = (if 1 < ceil_log (length es) (length chars)
                                    then short_count ceil_log (length es) (length chars) else 0)
           \<and> int (length longs) = int (length es) - short_count ceil_log (length es) (length chars)
           \<and> (\<forall>l\<in>set shorts. length l = ceil_log (length es) (length chars) - 1 \<and> set l \<subseteq> set chars)
           \<and> (\<forall>l\<in>set longs. length l = max 1 (ceil_log (length es) (length chars)) \<and> set l \<subseteq> set chars)
           \<and> (distinct chars \<longrightarrow>
                  map (hint_str_to_number chars) shorts =
                    (if 1 < ceil_log (length es) (length chars)
                     then [0..short_count ceil_log (length es) (length chars) - 1] else [])
                \<and> map (hint_str_to_number chars) longs =
                    [short_count ceil_log (length es) (length chars) * int (length chars)..
                     short_count ceil_log (length es) (length chars) * int (length chars)
                       + (int (length es) - short_count ceil_log (length es) (length chars)) - 1])"
proof -
  define K where "K = length chars"
  define N where "N = length es"
  define d where "d = ceil_log N K"
  define s where "s = short_count ceil_log N K"
  have n1: "1 \<le> N" using n by (cases es) (simp_all add: N_def)
  have k2: "2 \<le> K" using k by (simp add: K_def)
  have ok': "ceil_log_ok ceil_log N K" using ok by (simp add: N_def K_def)
  note b = short_count_bounds [OF k2 n1 ok', folded s_def d_def]
  define short_is where "short_is = (if 1 < d then [0..s - 1] else [])"
  define long_is where "long_is = [s * int K..s * int K + (int N - s) - 1]"
  have unfold: "hint_strings ceil_log es chars =
      (case hint_strs chars (int d - 1) short_is of
         None \<Rightarrow> None
       | Some (Inl e) \<Rightarrow> Some (Inl e)
       | Some (Inr shorts) \<Rightarrow>
           (case hint_strs chars (int d) long_is of
              None \<Rightarrow> None
            | Some (Inl e) \<Rightarrow> Some (Inl e)
            | Some (Inr longs) \<Rightarrow> Some (shuffle_hints (shorts @ longs) K)))"
  proof -
    have "length es \<noteq> 0" "length chars \<noteq> 0" "length chars \<noteq> 1" using n k by auto
    then show ?thesis
      by (simp add: hint_strings_def Let_def short_is_def long_is_def s_def short_count_def
          d_def N_def K_def cong: option.case_cong sum.case_cong)
  qed
  have short_range: "\<forall>i\<in>set short_is. 0 \<le> i \<and> i < int (length chars) ^ nat (int d - 1)"
  proof (cases "1 < d")
    case True
    then have "nat (int d - 1) = d - 1" by simp
    then show ?thesis using True b(4) by (auto simp: short_is_def K_def)
  next
    case False
    then show ?thesis by (simp add: short_is_def)
  qed
  from hint_strs_labels [OF k short_range]
  obtain shorts where shorts: "hint_strs chars (int d - 1) short_is = Some (Inr shorts)"
    "length shorts = length short_is"
    "\<forall>l\<in>set shorts. length l = max 1 (nat (int d - 1)) \<and> set l \<subseteq> set chars"
    "distinct chars \<longrightarrow> map (hint_str_to_number chars) shorts = short_is"
    by blast
  have "0 \<le> s * int K" using b(1) by simp
  then have long_range: "\<forall>i\<in>set long_is. 0 \<le> i \<and> i < int (length chars) ^ nat (int d)"
    using b(5) by (auto simp: long_is_def K_def)
  from hint_strs_labels [OF k long_range]
  obtain longs where longs: "hint_strs chars (int d) long_is = Some (Inr longs)"
    "length longs = length long_is"
    "\<forall>l\<in>set longs. length l = max 1 (nat (int d)) \<and> set l \<subseteq> set chars"
    "distinct chars \<longrightarrow> map (hint_str_to_number chars) longs = long_is"
    by blast
  have "0 < K" using k2 by simp
  from shuffle_hints_mset [OF this, of "shorts @ longs"]
  obtain r where r: "shuffle_hints (shorts @ longs) K = Inr r" "mset r = mset (shorts @ longs)"
    by blast
  have res: "hint_strings ceil_log es chars = Some (Inr r)"
    by (simp add: unfold shorts(1) longs(1) r(1))
  have len_s: "int (length shorts) = (if 1 < d then s else 0)"
    using shorts(2) b(1) by (simp add: short_is_def)
  have len_l: "int (length longs) = int N - s"
    using longs(2) b(2) by (simp add: long_is_def)
  have short_len: "\<forall>l\<in>set shorts. length l = d - 1 \<and> set l \<subseteq> set chars"
  proof (cases "1 < d")
    case True
    then have "max 1 (nat (int d - 1)) = d - 1" by simp
    then show ?thesis using shorts(3) by simp
  next
    case False
    then have "shorts = []" using shorts(2) by (simp add: short_is_def)
    then show ?thesis by simp
  qed
  have long_len: "\<forall>l\<in>set longs. length l = max 1 d \<and> set l \<subseteq> set chars"
    using longs(3) by simp
  show ?thesis
    using res r len_s len_l short_len long_len shorts(4) longs(4)
    unfolding short_is_def long_is_def s_def d_def N_def K_def
    by blast
qed


lemma least_power_from_spec:
  assumes "2 \<le> k"
  shows "n \<le> k ^ least_power_from k n d \<and> d \<le> least_power_from k n d
           \<and> (\<forall>j. d \<le> j \<and> j < least_power_from k n d \<longrightarrow> k ^ j < n)"
  using assms
proof (induction k n d rule: least_power_from.induct)
  case (1 k n d)
  show ?case
  proof (cases "n \<le> k ^ d")
    case True
    then have "least_power_from k n d = d" by (subst least_power_from.simps) simp
    then show ?thesis using True by simp
  next
    case False
    with "1.prems" have rec: "least_power_from k n d = least_power_from k n (Suc d)"
      by (subst least_power_from.simps) simp
    from False "1.prems" have "\<not> (k < 2 \<or> n \<le> k ^ d)" by simp
    from "1.IH" [OF this "1.prems"]
    have ih: "n \<le> k ^ least_power_from k n (Suc d)" "Suc d \<le> least_power_from k n (Suc d)"
      "\<forall>j. Suc d \<le> j \<and> j < least_power_from k n (Suc d) \<longrightarrow> k ^ j < n"
      by simp_all
    have "k ^ j < n" if "d \<le> j" "j < least_power_from k n (Suc d)" for j
    proof (cases "j = d")
      case True
      then show ?thesis using False by simp
    next
      case False
      then have "Suc d \<le> j" using that(1) by simp
      then show ?thesis using ih(3) that(2) by simp
    qed
    then show ?thesis unfolding rec using ih(1,2) by simp
  qed
qed

lemma exact_ceil_log_bounds:
  assumes "2 \<le> k"
  shows "n \<le> k ^ exact_ceil_log n k"
    and "j < exact_ceil_log n k \<Longrightarrow> k ^ j < n"
  using least_power_from_spec [OF assms, of n 0] by (simp_all add: exact_ceil_log_def)

lemma exact_ceil_log_ok:
  assumes "2 \<le> k" "1 \<le> n"
  shows "ceil_log_ok exact_ceil_log n k"
proof -
  define d where "d = exact_ceil_log n k"
  have up: "n \<le> k ^ d" using exact_ceil_log_bounds(1) [OF assms(1)] by (simp add: d_def)
  have "k ^ d \<le> k * n"
  proof (cases d)
    case 0
    then show ?thesis using assms by (simp add: Suc_leI)
  next
    case (Suc j)
    then have "k ^ j < n" using exact_ceil_log_bounds(2) [OF assms(1), of j n] by (simp add: d_def)
    then have "k * k ^ j \<le> k * n" by simp
    then show ?thesis using Suc by simp
  qed
  with up show ?thesis by (simp add: ceil_log_ok_def d_def)
qed

lemma exact_ceil_log_real:
  assumes "2 \<le> k" "1 \<le> n"
  shows "int (exact_ceil_log n k) = \<lceil>log (real k) (real n)\<rceil>"
proof (cases "exact_ceil_log n k")
  case 0
  then have "n \<le> 1" using exact_ceil_log_bounds(1) [OF assms(1), of n] by simp
  with assms(2) have "n = 1" by simp
  then show ?thesis using 0 by simp
next
  case (Suc j)
  have "k ^ j < n" using exact_ceil_log_bounds(2) [OF assms(1), of j n] Suc by simp
  moreover have "n \<le> k ^ (j + 1)" using exact_ceil_log_bounds(1) [OF assms(1), of n] Suc by simp
  ultimately have "\<lceil>log (real k) (real n)\<rceil> = int j + 1"
    using assms(1) by (rule ceiling_log_nat_eq_if)
  then show ?thesis using Suc by simp
qed


lemma hint_str_to_number_snoc:
  assumes "c \<in> set chars"
  shows "hint_str_to_number chars a * int (length chars) \<le> hint_str_to_number chars (a @ [c])"
    and "hint_str_to_number chars (a @ [c]) < hint_str_to_number chars a * int (length chars) + int (length chars)"
  using char_index_less [OF assms]
  by (simp_all add: hint_str_to_number_append hint_str_to_number_single)

lemma strict_prefix_one_longer:
  assumes "strict_prefix a b" "length b = Suc (length a)"
  shows "\<exists>c. b = a @ [c]"
proof -
  from assms(1) obtain z zs where "b = a @ z # zs" by (auto elim: strict_prefixE')
  with assms(2) show ?thesis by simp
qed


lemma hint_strings_lengths:
  fixes es :: "'a list"
  assumes k: "2 \<le> length chars" and n: "es \<noteq> []"
    and ok: "ceil_log_ok ceil_log (length es) (length chars)"
  shows "\<exists>labels. hint_strings ceil_log es chars = Some (Inr labels)
           \<and> (\<forall>l\<in>set labels. length l = max 1 (ceil_log (length es) (length chars))
                  \<or> 1 < ceil_log (length es) (length chars)
                      \<and> length l = ceil_log (length es) (length chars) - 1)
           \<and> int (length (filter (\<lambda>l. length l = max 1 (ceil_log (length es) (length chars))) labels))
               = int (length es)
                 - (if 1 < ceil_log (length es) (length chars)
                    then short_count ceil_log (length es) (length chars) else 0)
           \<and> int (length (filter (\<lambda>l. length l \<noteq> max 1 (ceil_log (length es) (length chars))) labels))
               = (if 1 < ceil_log (length es) (length chars)
                  then short_count ceil_log (length es) (length chars) else 0)"
proof -
  define K where "K = length chars"
  define N where "N = length es"
  define d where "d = ceil_log N K"
  define s where "s = short_count ceil_log N K"
  have n1: "1 \<le> N" using n by (cases es) (simp_all add: N_def)
  have k2: "2 \<le> K" using k by (simp add: K_def)
  have ok': "ceil_log_ok ceil_log N K" using ok by (simp add: N_def K_def)
  note b = short_count_bounds [OF k2 n1 ok', folded s_def d_def]
  from hint_strings_structure [OF k n ok, folded K_def N_def, folded s_def d_def]
  obtain shorts longs r where
    res: "hint_strings ceil_log es chars = Some (Inr r)" and
    ms: "mset r = mset (shorts @ longs)" and
    len_s: "int (length shorts) = (if 1 < d then s else 0)" and
    len_l: "int (length longs) = int N - s" and
    sl: "\<forall>l\<in>set shorts. length l = d - 1 \<and> set l \<subseteq> set chars" and
    ll: "\<forall>l\<in>set longs. length l = max 1 d \<and> set l \<subseteq> set chars"
    by blast
  have set_r: "set r = set shorts \<union> set longs" using ms by (metis mset_eq_setD set_append)
  have short_d: "1 < d" if "a \<in> set shorts" for a
  proof (rule ccontr)
    assume "\<not> 1 < d"
    then have "length shorts = 0" using len_s by simp
    with that show False by simp
  qed
  have lens: "\<forall>l\<in>set r. length l = max 1 d \<or> 1 < d \<and> length l = d - 1"
    using sl ll set_r short_d by auto
  have "\<forall>l\<in>set shorts. length l \<noteq> max 1 d" using sl by auto
  then have fs: "filter (\<lambda>l. length l = max 1 d) shorts = []"
    "filter (\<lambda>l. length l \<noteq> max 1 d) shorts = shorts"
    by (simp_all add: filter_empty_conv filter_id_conv)
  have fl: "filter (\<lambda>l. length l = max 1 d) longs = longs"
    "filter (\<lambda>l. length l \<noteq> max 1 d) longs = []"
    using ll by (simp_all add: filter_empty_conv filter_id_conv)
  have sz: "length (filter P r) = length (filter P (shorts @ longs))" for P
  proof -
    have "mset (filter P r) = mset (filter P (shorts @ longs))"
      using ms by (simp only: mset_filter)
    then show ?thesis by (metis size_mset)
  qed
  have "length (filter (\<lambda>l. length l = max 1 d) r) = length longs"
    using sz [of "\<lambda>l. length l = max 1 d"] fs fl by simp
  then have cnt: "int (length (filter (\<lambda>l. length l = max 1 d) r)) = int N - (if 1 < d then s else 0)"
    using len_l b(3) by simp
  have "length (filter (\<lambda>l. length l \<noteq> max 1 d) r) = length shorts"
    using sz [of "\<lambda>l. length l \<noteq> max 1 d"] fs fl by simp
  then have cnt': "int (length (filter (\<lambda>l. length l \<noteq> max 1 d) r)) = (if 1 < d then s else 0)"
    using len_s by simp
  show ?thesis using res lens cnt cnt' unfolding d_def s_def N_def K_def by blast
qed

lemma hint_strings_lengths_exact:
  fixes es :: "'a list"
  assumes k: "2 \<le> length chars" and n: "es \<noteq> []"
  shows "\<exists>labels. hint_strings exact_ceil_log es chars = Some (Inr labels)
           \<and> (\<forall>l\<in>set labels. length l = max 1 (exact_ceil_log (length es) (length chars))
                  \<or> length l = max 1 (exact_ceil_log (length es) (length chars)) - 1)
           \<and> int (length (filter (\<lambda>l. length l = max 1 (exact_ceil_log (length es) (length chars)) - 1) labels))
               \<le> (int (length chars) ^ max 1 (exact_ceil_log (length es) (length chars))
                    - int (length es)) div int (length chars)"
proof -
  define K where "K = length chars"
  define N where "N = length es"
  define e where "e = exact_ceil_log N K"
  have n1: "1 \<le> N" using n by (cases es) (simp_all add: N_def)
  have k2: "2 \<le> K" using k by (simp add: K_def)
  have ok: "ceil_log_ok exact_ceil_log (length es) (length chars)"
    using exact_ceil_log_ok [OF k2 n1] by (simp add: K_def N_def)
  from hint_strings_lengths [OF k n ok, folded K_def N_def, folded e_def]
  obtain r where
    res: "hint_strings exact_ceil_log es chars = Some (Inr r)" and
    lens: "\<forall>l\<in>set r. length l = max 1 e \<or> 1 < e \<and> length l = e - 1" and
    cnt: "int (length (filter (\<lambda>l. length l \<noteq> max 1 e) r))
            = (if 1 < e then short_count exact_ceil_log N K else 0)"
    by blast
  have l1: "\<forall>l\<in>set r. length l = max 1 e \<or> length l = max 1 e - 1"
    using lens by auto
  have "length (filter (\<lambda>l. length l = max 1 e - 1) r) \<le> length (filter (\<lambda>l. length l \<noteq> max 1 e) r)"
  proof -
    have "filter (\<lambda>l. length l = max 1 e - 1) r
            = filter (\<lambda>l. length l = max 1 e - 1) (filter (\<lambda>l. length l \<noteq> max 1 e) r)"
      by (auto simp: filter_filter intro!: filter_cong)
    then show ?thesis by (metis length_filter_le)
  qed
  then have "int (length (filter (\<lambda>l. length l = max 1 e - 1) r))
               \<le> (if 1 < e then short_count exact_ceil_log N K else 0)"
    using cnt by linarith
  also have "\<dots> \<le> (int K ^ max 1 e - int N) div int K"
  proof (cases "1 < e")
    case True
    then show ?thesis by (simp add: short_count_def e_def)
  next
    case False
    have "N \<le> K ^ e" using exact_ceil_log_bounds(1) [OF k2, of N] by (simp add: e_def)
    also have "K ^ e \<le> K ^ max 1 e" using k2 by (intro power_increasing) simp_all
    finally have "int N \<le> int K ^ max 1 e" by (metis of_nat_le_iff of_nat_power)
    then show ?thesis using False k2 by (simp add: pos_imp_zdiv_nonneg_iff)
  qed
  finally show ?thesis using res l1 unfolding e_def N_def K_def by blast
qed


lemma fold_bucket_append_buckets:
  assumes "bs \<noteq> []"
  shows "fold bucket_append (enumerate i hints) bs =
           map (\<lambda>j. bs ! j @ map snd (filter (\<lambda>ph. fst ph mod length bs = j) (enumerate i hints)))
             [0..<length bs]"
  using assms
proof (induction hints arbitrary: i bs)
  case Nil
  then show ?case by (simp add: map_nth)
next
  case (Cons h hints)
  define bs' where "bs' = bucket_append (i, h) bs"
  have len: "length bs' = length bs" by (simp add: bs'_def length_bucket_append)
  then have ne: "bs' \<noteq> []" using Cons.prems by auto
  have j: "i mod length bs < length bs" using Cons.prems by simp
  have nth: "bs' ! j = (if j = i mod length bs then bs ! j @ [h] else bs ! j)"
    if "j < length bs" for j
    using that by (simp add: bs'_def bucket_append_def nth_list_update)
  have "fold bucket_append (enumerate i (h # hints)) bs = fold bucket_append (enumerate (Suc i) hints) bs'"
    by (simp add: bs'_def)
  also have "\<dots> = map (\<lambda>j. bs' ! j @ map snd (filter (\<lambda>ph. fst ph mod length bs = j) (enumerate (Suc i) hints)))
                     [0..<length bs]"
    using Cons.IH [OF ne, of "Suc i"] by (simp add: len)
  also have "\<dots> = map (\<lambda>j. bs ! j @ map snd (filter (\<lambda>ph. fst ph mod length bs = j) (enumerate i (h # hints))))
                     [0..<length bs]"
    by (rule map_cong) (auto simp: nth)
  finally show ?case .
qed

lemma shuffle_hints_buckets:
  assumes "0 < len"
  shows "shuffle_hints hints len =
           Inr (concat (map (\<lambda>j. map snd (filter (\<lambda>ph. fst ph mod len = j) (enumerate 0 hints)))
                          [0..<len]))"
proof -
  have ne: "replicate len ([] :: 'a list) \<noteq> []" using assms by simp
  have "fold bucket_append (enumerate 0 hints) (replicate len []) =
          map (\<lambda>j. replicate len [] ! j @ map snd (filter (\<lambda>ph. fst ph mod len = j) (enumerate 0 hints)))
            [0..<len]"
    using fold_bucket_append_buckets [OF ne, of 0 hints] by simp
  also have "\<dots> = map (\<lambda>j. map snd (filter (\<lambda>ph. fst ph mod len = j) (enumerate 0 hints))) [0..<len]"
    by (rule map_cong) simp_all
  finally show ?thesis using assms by (simp add: shuffle_hints_def)
qed

section \<open>Positions in the shuffled order\<close>

lemma bucket_size_iff:
  fixes j K q N :: nat
  assumes "j < K"
  shows "q < (N + K - 1 - j) div K \<longleftrightarrow> j + q * K < N"
proof -
  have "q < (N + K - 1 - j) div K \<longleftrightarrow> Suc q \<le> (N + K - 1 - j) div K" by auto
  also have "\<dots> \<longleftrightarrow> Suc q * K \<le> N + K - 1 - j"
    using assms by (intro less_eq_div_iff_mult_less_eq) simp
  also have "\<dots> \<longleftrightarrow> j + q * K < N" using assms by auto
  finally show ?thesis .
qed

lemma bucket_positions_closed:
  assumes "j < K"
  shows "bucket_positions K N j = map (\<lambda>q. j + q * K) [0..<(N + K - 1 - j) div K]"
proof (rule strict_sorted_equal)
  show "sorted_wrt (<) (bucket_positions K N j)"
    unfolding bucket_positions_def by (intro sorted_wrt_filter) simp
  show "sorted_wrt (<) (map (\<lambda>q. j + q * K) [0..<(N + K - 1 - j) div K])"
    unfolding sorted_wrt_map
    by (rule sorted_wrt_mono_rel [of _ "(<)"]) (use assms in auto)
  show "set (bucket_positions K N j) = set (map (\<lambda>q. j + q * K) [0..<(N + K - 1 - j) div K])"
  proof (rule sym, intro set_eqI iffI)
    fix p
    assume "p \<in> set (map (\<lambda>q. j + q * K) [0..<(N + K - 1 - j) div K])"
    then obtain q where q: "q < (N + K - 1 - j) div K" "p = j + q * K" by auto
    then have "p < N" using bucket_size_iff [OF assms] by simp
    moreover have "p mod K = j" using q(2) assms by simp
    ultimately show "p \<in> set (bucket_positions K N j)" by (simp add: bucket_positions_def)
  next
    fix p
    assume "p \<in> set (bucket_positions K N j)"
    then have p: "p < N" "p mod K = j" by (simp_all add: bucket_positions_def)
    have eq: "p = j + (p div K) * K" using p(2) by (metis add.commute div_mult_mod_eq)
    then have "p div K < (N + K - 1 - j) div K" using bucket_size_iff [OF assms, of "p div K" N] p(1) by simp
    with eq show "p \<in> set (map (\<lambda>q. j + q * K) [0..<(N + K - 1 - j) div K])"
      by (metis (mono_tags, lifting) atLeast0LessThan image_eqI lessThan_iff set_map set_upt)
  qed
qed

lemma length_bucket_positions:
  "j < K \<Longrightarrow> length (bucket_positions K N j) = (N + K - 1 - j) div K"
  by (simp add: bucket_positions_closed)

lemma bucket_positions_nth:
  assumes "j < K" "q < length (bucket_positions K N j)"
  shows "bucket_positions K N j ! q = j + q * K"
  using assms by (simp add: bucket_positions_closed)

lemma length_bucket_positions_le:
  assumes "j < K"
  shows "length (bucket_positions K N j) \<le> (N + K - 1) div K"
  unfolding length_bucket_positions [OF assms] by (intro div_le_mono) simp

lemma bucket_offset_Suc:
  "bucket_offset K N (Suc b) = bucket_offset K N b + length (bucket_positions K N b)"
  by (simp add: bucket_offset_def)

lemma bucket_offset_mono: "b \<le> b' \<Longrightarrow> bucket_offset K N b \<le> bucket_offset K N b'"
  by (induction b' rule: dec_induct) (simp_all add: bucket_offset_Suc)

lemma shuffled_positions_nth:
  assumes "b < K" "q < length (bucket_positions K N b)"
  shows "shuffled_positions K N ! (bucket_offset K N b + q) = b + q * K"
proof -
  have "[0..<K] = [0..<b] @ b # [Suc b..<K]"
    using assms(1) by (metis less_imp_le_nat upt_add_eq_append upt_conv_Cons le_add_diff_inverse zero_le)
  then have "shuffled_positions K N =
               concat (map (bucket_positions K N) [0..<b]) @ bucket_positions K N b
                 @ concat (map (bucket_positions K N) [Suc b..<K])"
    by (simp add: shuffled_positions_def)
  then have "shuffled_positions K N ! (bucket_offset K N b + q) = bucket_positions K N b ! q"
    using assms(2) by (simp add: bucket_offset_def nth_append)
  then show ?thesis using bucket_positions_nth [OF assms] by simp
qed

lemma position_in_bucket:
  assumes "i < bucket_offset K N k"
  shows "\<exists>b q. b < k \<and> q < length (bucket_positions K N b) \<and> i = bucket_offset K N b + q"
  using assms
proof (induction k)
  case 0
  then show ?case by (simp add: bucket_offset_def)
next
  case (Suc k)
  show ?case
  proof (cases "i < bucket_offset K N k")
    case True
    from Suc.IH [OF this] show ?thesis using less_Suc_eq by auto
  next
    case False
    then have "i - bucket_offset K N k < length (bucket_positions K N k)"
      "i = bucket_offset K N k + (i - bucket_offset K N k)"
      using Suc.prems by (simp_all add: bucket_offset_Suc)
    then show ?thesis by blast
  qed
qed

lemma shuffle_hints_positions:
  assumes "0 < K"
  shows "shuffle_hints hints K = Inr (map (nth hints) (shuffled_positions K (length hints)))"
proof -
  have en: "enumerate 0 hints = map (\<lambda>p. (p, hints ! p)) [0..<length hints]"
    by (simp add: enumerate_eq_zip zip_eq_conv comp_def map_nth)
  have "map snd (filter (\<lambda>ph. fst ph mod K = j) (enumerate 0 hints))
          = map (nth hints) (bucket_positions K (length hints) j)" for j
    by (simp add: en filter_map bucket_positions_def comp_def)
  then show ?thesis
    using shuffle_hints_buckets [OF assms, of hints]
    by (simp add: shuffled_positions_def map_concat comp_def)
qed

lemma length_shuffled_positions:
  assumes "0 < K"
  shows "length (shuffled_positions K N) = N"
proof -
  from shuffle_hints_mset [OF assms, of "[0..<N]"]
  obtain r where "shuffle_hints [0..<N] K = Inr r" "mset r = mset [0..<N]" by blast
  then have "length r = N" by (metis length_upt size_mset diff_zero)
  moreover have "r = map (nth [0..<N]) (shuffled_positions K N)"
    using \<open>shuffle_hints [0..<N] K = Inr r\<close> shuffle_hints_positions [OF assms, of "[0..<N]"]
    by simp
  ultimately show ?thesis by (metis length_map)
qed

lemma bucket_offset_all:
  assumes "0 < K"
  shows "bucket_offset K N K = N"
  using length_shuffled_positions [OF assms, of N] by (simp add: bucket_offset_def shuffled_positions_def)

lemma position_below_count:
  assumes "0 < K" "b < K" "q < length (bucket_positions K N b)"
  shows "bucket_offset K N b + q < N"
proof -
  have "bucket_offset K N b + q < bucket_offset K N (Suc b)"
    using assms(3) by (simp add: bucket_offset_Suc)
  also have "\<dots> \<le> bucket_offset K N K"
    using assms(2) by (intro bucket_offset_mono) simp
  finally show ?thesis by (simp add: bucket_offset_all [OF assms(1)])
qed

lemma shuffled_run_gap:
  fixes K N lo hi i j :: nat
  assumes K: "0 < K" and hi: "hi \<le> N" and run: "lo + K \<le> hi"
    and ij: "i < j" "j < N"
    and vi: "lo \<le> shuffled_positions K N ! i" "shuffled_positions K N ! i < hi"
    and vj: "lo \<le> shuffled_positions K N ! j" "shuffled_positions K N ! j < hi"
  shows "\<exists>m. i < m \<and> m \<le> i + (N + K - 1) div K \<and> m < N
               \<and> lo \<le> shuffled_positions K N ! m \<and> shuffled_positions K N ! m < hi"
proof -
  have "i < bucket_offset K N K" using ij by (simp add: bucket_offset_all [OF K])
  from position_in_bucket [OF this] obtain b q where
    b: "b < K" and q: "q < length (bucket_positions K N b)" and i: "i = bucket_offset K N b + q"
    by blast
  have "j < bucket_offset K N K" using ij by (simp add: bucket_offset_all [OF K])
  from position_in_bucket [OF this] obtain b' q' where
    b': "b' < K" and q': "q' < length (bucket_positions K N b')" and j: "j = bucket_offset K N b' + q'"
    by blast
  define v where "v = b + q * K"
  have Si: "shuffled_positions K N ! i = v"
    unfolding i v_def by (rule shuffled_positions_nth [OF b q])
  have Sj: "shuffled_positions K N ! j = b' + q' * K"
    unfolding j by (rule shuffled_positions_nth [OF b' q'])
  have v: "lo \<le> v" "v < hi" using vi Si by simp_all
  have C: "length (bucket_positions K N b) \<le> (N + K - 1) div K"
    by (rule length_bucket_positions_le [OF b])
  have order: "b < b' \<or> (b = b' \<and> q < q')"
  proof (rule ccontr)
    assume neg: "\<not> (b < b' \<or> (b = b' \<and> q < q'))"
    show False
    proof (cases "b = b'")
      case True
      then show ?thesis using neg ij(1) i j by simp
    next
      case False
      then have "Suc b' \<le> b" using neg by simp
      then have "bucket_offset K N (Suc b') \<le> bucket_offset K N b" by (rule bucket_offset_mono)
      then show ?thesis using q' ij(1) i j by (simp add: bucket_offset_Suc)
    qed
  qed
  show ?thesis
  proof (cases "b + Suc q * K < hi")
    case True
    then have "b + Suc q * K < N" using hi by simp
    then have q1: "Suc q < length (bucket_positions K N b)"
      using bucket_size_iff [OF b, of "Suc q" N] by (simp add: length_bucket_positions [OF b])
    define m where "m = bucket_offset K N b + Suc q"
    have "shuffled_positions K N ! m = b + Suc q * K"
      unfolding m_def by (rule shuffled_positions_nth [OF b q1])
    then have "lo \<le> shuffled_positions K N ! m" "shuffled_positions K N ! m < hi"
      using True v(1) by (simp_all add: v_def)
    moreover have "i < m" by (simp add: m_def i)
    moreover have "m \<le> i + (N + K - 1) div K" using C q1 by (simp add: m_def i)
    moreover have "m < N" unfolding m_def by (rule position_below_count [OF K b q1])
    ultimately show ?thesis by blast
  next
    case False
    then have vK: "hi \<le> v + K" by (simp add: v_def)
    have "b \<noteq> b'"
    proof
      assume eq: "b = b'"
      with order have "Suc q \<le> q'" by simp
      then have "Suc q * K \<le> q' * K" by (rule mult_le_mono1)
      then have "b + Suc q * K \<le> b' + q' * K" using eq by simp
      then show False using False vj(2) Sj by simp
    qed
    with order have "b < b'" by simp
    then have sb: "Suc b < K" using b' by simp
    define t where "t = (v + 1 - lo) div K"
    have tK: "t * K \<le> v + 1 - lo" unfolding t_def by (rule div_times_less_eq_dividend)
    have tmod: "v + 1 - lo = t * K + (v + 1 - lo) mod K" unfolding t_def by simp
    have modK: "(v + 1 - lo) mod K < K" using K by simp
    have "t * K < Suc q * K"
    proof -
      have "t * K \<le> v + 1" using tK by simp
      also have "\<dots> < Suc q * K" using sb by (simp add: v_def)
      finally show ?thesis .
    qed
    then have "t < Suc q" by (rule mult_less_cancel2 [THEN iffD1, THEN conjunct2])
    then have tq: "t \<le> q" by simp
    define w where "w = Suc b + (q - t) * K"
    have "(q - t) * K + t * K = (q - t + t) * K" by (simp only: add_mult_distrib)
    also have "\<dots> = q * K" using tq by simp
    finally have w_eq: "w + t * K = v + 1" by (simp add: w_def v_def)
    have w_lo: "lo \<le> w" using w_eq tK v(1) by linarith
    have w_hi: "w < hi" using w_eq tmod modK run v(1) by linarith
    have "w < N" using w_hi hi by simp
    then have qt: "q - t < length (bucket_positions K N (Suc b))"
      using bucket_size_iff [OF sb, of "q - t" N] by (simp add: length_bucket_positions [OF sb] w_def)
    define m where "m = bucket_offset K N (Suc b) + (q - t)"
    have "shuffled_positions K N ! m = w"
      unfolding m_def w_def by (rule shuffled_positions_nth [OF sb qt])
    then have "lo \<le> shuffled_positions K N ! m" "shuffled_positions K N ! m < hi"
      using w_lo w_hi by simp_all
    moreover have "i < m" using q tq by (simp add: m_def i bucket_offset_Suc)
    moreover have "m \<le> i + (N + K - 1) div K" using C tq by (simp add: m_def i bucket_offset_Suc)
    moreover have "m < N" unfolding m_def by (rule position_below_count [OF K sb qt])
    ultimately show ?thesis by blast
  qed
qed

lemma hint_str_to_number_Cons:
  "hint_str_to_number chars (c # s)
     = int (char_index chars c) * int (length chars) ^ length s + hint_str_to_number chars s"
  using hint_str_to_number_append [of chars "[c]" s] by (simp add: hint_str_to_number_single)

lemma hint_str_to_number_range:
  assumes "set s \<subseteq> set chars"
  shows "0 \<le> hint_str_to_number chars s \<and> hint_str_to_number chars s < int (length chars) ^ length s"
  using assms
proof (induction s)
  case Nil
  then show ?case by (simp add: hint_str_to_number_Nil)
next
  case (Cons c s)
  define k where "k = int (length chars)"
  define P where "P = k ^ length s"
  have ih: "0 \<le> hint_str_to_number chars s" "hint_str_to_number chars s < P"
    using Cons by (simp_all add: P_def k_def)
  have "char_index chars c < length chars" using Cons.prems by (simp add: char_index_less)
  then have idx: "int (char_index chars c) + 1 \<le> k" by (simp add: k_def)
  have Ppos: "0 \<le> P" using ih by simp
  have "(int (char_index chars c) + 1) * P \<le> k * P" using idx Ppos by (rule mult_right_mono)
  then have "int (char_index chars c) * P + P \<le> k * P" by (simp add: algebra_simps)
  moreover have "0 \<le> int (char_index chars c) * P" using Ppos by simp
  ultimately show ?case
    using ih by (simp add: hint_str_to_number_Cons k_def [symmetric] P_def [symmetric])
qed

lemma head_index_div:
  assumes "s \<noteq> []" "set s \<subseteq> set chars"
  shows "int (char_index chars (hd s)) = hint_str_to_number chars s div int (length chars) ^ (length s - 1)"
proof -
  obtain c t where s: "s = c # t" using assms(1) by (cases s) auto
  define P where "P = int (length chars) ^ length t"
  have "set t \<subseteq> set chars" using assms(2) s by simp
  from hint_str_to_number_range [OF this]
  have r: "0 \<le> hint_str_to_number chars t" "hint_str_to_number chars t < P" by (simp_all add: P_def)
  have "(int (char_index chars c) * P + hint_str_to_number chars t) div P = int (char_index chars c)"
    using r by (simp add: div_pos_pos_trivial)
  then show ?thesis by (simp add: s hint_str_to_number_Cons P_def)
qed

lemma char_index_inverse: "c \<in> set chars \<Longrightarrow> chars ! char_index chars c = c"
  unfolding char_index_def by (induction chars) auto

lemma upt_split:
  assumes "[a..<n] = us @ x # vs"
  shows "us = [a..<x] \<and> vs = [Suc x..<n] \<and> a \<le> x \<and> x < n"
  using assms
proof (induction us arbitrary: a)
  case Nil
  then have "[a..<n] = x # vs" by simp
  from upt_eq_Cons_conv [THEN iffD1, OF this] show ?case by auto
next
  case (Cons u us)
  then have "[a..<n] = u # (us @ x # vs)" by simp
  from upt_eq_Cons_conv [THEN iffD1, OF this]
  have "a < n" "u = a" "[Suc a..<n] = us @ x # vs" by auto
  with Cons.IH [of "Suc a"] show ?case by (auto simp: upt_conv_Cons)
qed

lemma gaps_filter_bound:
  assumes step: "\<And>i j. i < j \<Longrightarrow> j < n \<Longrightarrow> P i \<Longrightarrow> P j \<Longrightarrow> \<exists>m. i < m \<and> m \<le> i + C \<and> P m"
  shows "\<forall>g\<in>set (gaps (filter P [a..<n])). g \<le> C"
proof (induction "filter P [a..<n]" arbitrary: a rule: gaps.induct)
  case (3 x y ys)
  from "3.hyps"(2) [symmetric] obtain us vs where
    a: "[a..<n] = us @ x # vs" "P x" "y # ys = filter P vs"
    by (auto simp: filter_eq_Cons_iff)
  from upt_split [OF a(1)] have vs: "vs = [Suc x..<n]" and x: "x < n" by simp_all
  from a(3) vs have f: "filter P [Suc x..<n] = y # ys" by simp
  then obtain us' vs' where
    b: "[Suc x..<n] = us' @ y # vs'" "\<forall>u\<in>set us'. \<not> P u" "P y"
    by (auto simp: filter_eq_Cons_iff)
  from upt_split [OF b(1)] have us': "us' = [Suc x..<y]" and y: "Suc x \<le> y" "y < n" by simp_all
  from step [of x y] y a(2) b(3) obtain m where m: "x < m" "m \<le> x + C" "P m" by auto
  have "y \<le> m"
  proof (rule ccontr)
    assume "\<not> y \<le> m"
    then have "m \<in> set us'" using m(1) by (simp add: us')
    with b(2) m(3) show False by blast
  qed
  then have "y - x \<le> C" using m(2) by simp
  moreover have "\<forall>g\<in>set (gaps (filter P [Suc x..<n])). g \<le> C"
    using "3.hyps"(1) [of "Suc x"] f by simp
  ultimately show ?case using "3.hyps"(2) [symmetric] f by simp
next
  case 1
  then show ?case by (metis empty_iff gaps.simps(1) list.set(1))
next
  case (2 v)
  then show ?case by (metis empty_iff gaps.simps(2) list.set(1))
qed

lemma filter_interval:
  assumes "hi \<le> n"
  shows "filter (\<lambda>p. lo \<le> p \<and> p < hi) [0..<n] = [lo..<hi]"
proof (rule strict_sorted_equal)
  show "sorted_wrt (<) [lo..<hi]" by simp
  show "sorted_wrt (<) (filter (\<lambda>p. lo \<le> p \<and> p < hi) [0..<n])"
    by (intro sorted_wrt_filter) simp
  show "set (filter (\<lambda>p. lo \<le> p \<and> p < hi) [0..<n]) = set [lo..<hi]"
    using assms by auto
qed

lemma shuffled_positions_perm:
  assumes "0 < K"
  shows "mset (shuffled_positions K N) = mset [0..<N]"
proof -
  from shuffle_hints_mset [OF assms, of "[0..<N]"]
  obtain r where r: "shuffle_hints [0..<N] K = Inr r" "mset r = mset [0..<N]" by blast
  have "set (shuffled_positions K N) \<subseteq> {0..<N}"
    by (auto simp: shuffled_positions_def bucket_positions_def)
  then have "map (nth [0..<N]) (shuffled_positions K N) = shuffled_positions K N"
    by (intro map_idI) auto
  then have "r = shuffled_positions K N"
    using r(1) shuffle_hints_positions [OF assms, of "[0..<N]"] by simp
  with r(2) show ?thesis by simp
qed

lemma count_shuffled_positions:
  assumes "0 < K"
  shows "length (filter (\<lambda>i. Q (shuffled_positions K N ! i)) [0..<N]) = length (filter Q [0..<N])"
proof -
  have len: "length (shuffled_positions K N) = N" by (rule length_shuffled_positions [OF assms])
  have "filter Q (shuffled_positions K N)
          = filter Q (map (nth (shuffled_positions K N)) [0..<N])"
    using len by (metis map_nth)
  also have "\<dots> = map (nth (shuffled_positions K N)) (filter (\<lambda>i. Q (shuffled_positions K N ! i)) [0..<N])"
    by (simp add: filter_map comp_def)
  finally have "length (filter (\<lambda>i. Q (shuffled_positions K N ! i)) [0..<N])
                  = length (filter Q (shuffled_positions K N))"
    by (metis length_map)
  also have "\<dots> = size (filter_mset Q (mset (shuffled_positions K N)))"
    by (metis mset_filter size_mset)
  also have "\<dots> = length (filter Q [0..<N])"
    unfolding shuffled_positions_perm [OF assms] by (metis mset_filter size_mset)
  finally show ?thesis .
qed

lemma convex_positions_interval:
  fixes S :: "nat set"
  assumes fin: "finite S" and ne: "S \<noteq> {}"
    and convex: "\<And>p p' p''. p \<in> S \<Longrightarrow> p'' \<in> S \<Longrightarrow> p \<le> p' \<Longrightarrow> p' \<le> p'' \<Longrightarrow> p' \<in> S"
  shows "S = {Min S..<Suc (Max S)}"
proof (intro set_eqI iffI)
  fix p assume "p \<in> S"
  then show "p \<in> {Min S..<Suc (Max S)}" using fin by (simp add: less_Suc_eq_le)
next
  fix p assume "p \<in> {Min S..<Suc (Max S)}"
  then have "Min S \<le> p" "p \<le> Max S" by simp_all
  moreover have "Min S \<in> S" "Max S \<in> S" using fin ne by simp_all
  ultimately show "p \<in> S" using convex by blast
qed

lemma heads_of_block:
  assumes len: "\<forall>l\<in>set ls. length l = L \<and> set l \<subseteq> set chars" and L: "0 < L"
    and k: "0 < length chars"
    and vals: "map (hint_str_to_number chars) ls = [a..b]"
  shows "map (\<lambda>l. int (char_index chars (hd l))) ls = map (\<lambda>n. n div int (length chars) ^ (L - 1)) [a..b]"
    and "sorted (map (\<lambda>l. int (char_index chars (hd l))) ls)"
proof -
  have "int (char_index chars (hd l)) = hint_str_to_number chars l div int (length chars) ^ (L - 1)"
    if "l \<in> set ls" for l
  proof -
    from that len have "length l = L" "set l \<subseteq> set chars" by auto
    with L have "l \<noteq> []" by auto
    from head_index_div [OF this \<open>set l \<subseteq> set chars\<close>] \<open>length l = L\<close> show ?thesis by simp
  qed
  then have "map (\<lambda>l. int (char_index chars (hd l))) ls
               = map (\<lambda>n. n div int (length chars) ^ (L - 1)) (map (hint_str_to_number chars) ls)"
    by (simp add: comp_def)
  then show eq: "map (\<lambda>l. int (char_index chars (hd l))) ls
                   = map (\<lambda>n. n div int (length chars) ^ (L - 1)) [a..b]"
    by (simp only: vals)
  have P: "0 < int (length chars) ^ (L - 1)" using k by simp
  have "sorted_wrt (\<lambda>x y. x div int (length chars) ^ (L - 1) \<le> y div int (length chars) ^ (L - 1)) [a..b]"
    by (rule sorted_wrt_mono_rel [of _ "(\<le>)"]) (use P in \<open>auto intro: zdiv_mono1\<close>)
  then show "sorted (map (\<lambda>l. int (char_index chars (hd l))) ls)"
    unfolding eq by (simp add: sorted_map)
qed

lemma generated_heads_sorted:
  fixes es :: "'a list"
  assumes k: "2 \<le> length chars" and n: "es \<noteq> []"
    and ok: "ceil_log_ok ceil_log (length es) (length chars)"
    and sl: "\<forall>l\<in>set shorts. length l = ceil_log (length es) (length chars) - 1 \<and> set l \<subseteq> set chars"
    and ll: "\<forall>l\<in>set longs. length l = max 1 (ceil_log (length es) (length chars)) \<and> set l \<subseteq> set chars"
    and sv: "map (hint_str_to_number chars) shorts =
               (if 1 < ceil_log (length es) (length chars)
                then [0..short_count ceil_log (length es) (length chars) - 1] else [])"
    and lv: "map (hint_str_to_number chars) longs =
               [short_count ceil_log (length es) (length chars) * int (length chars)..
                short_count ceil_log (length es) (length chars) * int (length chars)
                  + (int (length es) - short_count ceil_log (length es) (length chars)) - 1]"
  shows "sorted (map (\<lambda>l. int (char_index chars (hd l))) (shorts @ longs))"
proof -
  define K where "K = int (length chars)"
  define d where "d = ceil_log (length es) (length chars)"
  define s where "s = short_count ceil_log (length es) (length chars)"
  define H where "H = (\<lambda>l. int (char_index chars (hd l)))"
  note sl' = sl [folded d_def] and ll' = ll [folded d_def]
    and sv' = sv [folded s_def d_def] and lv' = lv [folded s_def d_def, folded K_def]
  have kpos: "0 < length chars" using k by linarith
  have Kpos: "0 < K" using kpos by (simp add: K_def)
  have Lpos: "0 < max 1 d" by simp
  note long = heads_of_block [OF ll' Lpos kpos lv', folded H_def K_def]
  show ?thesis
  proof (cases "1 < d")
    case False
    then have "shorts = []" using sv' by simp
    then show ?thesis using long(2) by (simp add: H_def)
  next
    case True
    then have sv'': "map (hint_str_to_number chars) shorts = [0..s - 1]" using sv' by simp
    have dpos: "0 < d - 1" using True by simp
    note short = heads_of_block [OF sl' dpos kpos sv'', folded H_def K_def]
    have maxd: "max 1 d - 1 = Suc (d - 1 - 1)" using True by simp
    have cross: "x \<le> y" if x: "x \<in> set (map H shorts)" and y: "y \<in> set (map H longs)" for x y
    proof -
      from x obtain a where a: "0 \<le> a" "a \<le> s - 1" "x = a div K ^ (d - 1 - 1)"
        unfolding short(1) by auto
      from y obtain b where b: "s * K \<le> b" "y = b div K ^ (max 1 d - 1)"
        unfolding long(1) by auto
      have e1: "s div K ^ (d - 1 - 1) = (s * K) div (K ^ (d - 1 - 1) * K)"
        using Kpos by (intro div_mult_mult2 [symmetric]) simp
      have e2: "K ^ (d - 1 - 1) * K = K ^ (max 1 d - 1)"
        unfolding maxd by simp
      have "x \<le> s div K ^ (d - 1 - 1)"
        unfolding a(3) using a(2) Kpos by (intro zdiv_mono1) simp_all
      also have "\<dots> = (s * K) div K ^ (max 1 d - 1)"
        by (simp only: e1 e2)
      also have "\<dots> \<le> y" unfolding b(2) using b(1) Kpos by (intro zdiv_mono1) simp_all
      finally show ?thesis .
    qed
    have "sorted (map H shorts @ map H longs)"
      using short(2) long(2) cross by (simp add: sorted_append)
    then show ?thesis by (simp add: H_def)
  qed
qed
subsection \<open>When the labels of one character stand apart\<close>

text \<open>
  Position \<open>p\<close> of the generated order comes out at \<open>shuffled_index K N p\<close>; that order
  is the order of the pairs \<open>(p mod K, p div K)\<close>.
\<close>

lemma shuffled_index_nth:
  assumes K: "0 < K" and p: "p < N"
  shows "shuffled_index K N p < N" and "shuffled_positions K N ! shuffled_index K N p = p"
proof -
  have b: "p mod K < K" using K by simp
  have "p mod K + (p div K) * K = p" by simp
  then have "p mod K + (p div K) * K < N" using p by simp
  then have q: "p div K < length (bucket_positions K N (p mod K))"
    using bucket_size_iff [OF b, of "p div K" N] by (simp add: length_bucket_positions [OF b])
  show "shuffled_index K N p < N"
    unfolding shuffled_index_def by (rule position_below_count [OF K b q])
  show "shuffled_positions K N ! shuffled_index K N p = p"
    unfolding shuffled_index_def using shuffled_positions_nth [OF b q] by simp
qed

lemma shuffled_index_less:
  assumes K: "0 < K" and a: "a < N"
    and ord: "a mod K < b mod K \<or> (a mod K = b mod K \<and> a div K < b div K)"
  shows "shuffled_index K N a < shuffled_index K N b"
proof -
  have ba: "a mod K < K" using K by simp
  have "a mod K + (a div K) * K = a" by simp
  then have "a mod K + (a div K) * K < N" using a by simp
  then have q: "a div K < length (bucket_positions K N (a mod K))"
    using bucket_size_iff [OF ba, of "a div K" N] by (simp add: length_bucket_positions [OF ba])
  from ord show ?thesis
  proof
    assume "a mod K < b mod K"
    then have "Suc (a mod K) \<le> b mod K" by simp
    then have "bucket_offset K N (Suc (a mod K)) \<le> bucket_offset K N (b mod K)"
      by (rule bucket_offset_mono)
    then show ?thesis using q by (simp add: shuffled_index_def bucket_offset_Suc)
  next
    assume "a mod K = b mod K \<and> a div K < b div K"
    then show ?thesis by (simp add: shuffled_index_def)
  qed
qed

text \<open>
  A position that does not pass the test, between two that do, leaves a gap of more than
  one in the list of the positions that pass.
\<close>

lemma gaps_filter_gap:
  assumes "a \<le> i" "i < x" "x < j" "j < n" "P i" "P j" "\<not> P x"
  shows "\<exists>g\<in>set (gaps (filter P [a..<n])). 1 < g"
  using assms(1,2,5)
proof (induction "filter P [a..<n]" arbitrary: a i rule: gaps.induct)
  case 1
  have "i \<in> set (filter P [a..<n])" using "1.prems" assms(3,4) by simp
  with "1.hyps" show ?case by simp
next
  case (2 v)
  have "i \<in> set (filter P [a..<n])" "j \<in> set (filter P [a..<n])"
    using "2.prems" assms(3,4,6) by simp_all
  then have "i = v" "j = v" using "2.hyps" [symmetric] by simp_all
  then show ?case using "2.prems" assms(3) by simp
next
  case (3 u y ys)
  from "3.hyps"(2) [symmetric] obtain us vs where
    a: "[a..<n] = us @ u # vs" "\<forall>w\<in>set us. \<not> P w" "P u" "y # ys = filter P vs"
    by (auto simp: filter_eq_Cons_iff)
  from upt_split [OF a(1)] have us: "us = [a..<u]" and vs: "vs = [Suc u..<n]" and u: "a \<le> u" "u < n"
    by simp_all
  from a(4) vs have f: "filter P [Suc u..<n] = y # ys" by simp
  then obtain us' vs' where
    b: "[Suc u..<n] = us' @ y # vs'" "\<forall>w\<in>set us'. \<not> P w" "P y"
    by (auto simp: filter_eq_Cons_iff)
  from upt_split [OF b(1)] have us': "us' = [Suc u..<y]" and y: "Suc u \<le> y" "y < n" by simp_all
  have ui: "u \<le> i"
  proof (rule ccontr)
    assume "\<not> u \<le> i"
    then have "i \<in> set us" using "3.prems" by (simp add: us)
    with a(2) "3.prems" show False by blast
  qed
  have rest: "\<exists>g\<in>set (gaps (filter P [Suc u..<n])). 1 < g" if "Suc u \<le> i'" "i' < x" "P i'" for i'
    using "3.hyps"(1) [of "Suc u" i'] f that by simp
  have tail: "set (gaps (filter P [Suc u..<n])) \<subseteq> set (gaps (filter P [a..<n]))"
    using "3.hyps"(2) [symmetric] f by auto
  show ?case
  proof (cases "y \<le> i")
    case True
    then have "Suc u \<le> i" using y by simp
    from rest [OF this "3.prems"(2,3)] tail show ?thesis by blast
  next
    case False
    have "i = u"
    proof (rule ccontr)
      assume "i \<noteq> u"
      then have "i \<in> set us'" using ui False by (simp add: us')
      with b(2) "3.prems" show False by blast
    qed
    show ?thesis
    proof (cases "y < x")
      case True
      from rest [OF y(1) True b(3)] tail show ?thesis by blast
    next
      case False
      then have "x < y" using b(3) assms(7) by (metis linorder_neqE_nat)
      then have "1 < y - u" using \<open>i = u\<close> "3.prems"(2) by simp
      moreover have "y - u \<in> set (gaps (filter P [a..<n]))"
        using "3.hyps"(2) [symmetric] by simp
      ultimately show ?thesis by blast
    qed
  qed
qed

text \<open>
  A run \<open>lo..<hi\<close> of two or more generated positions has a position outside of it
  shuffled between two of its own, unless it leaves out at most the first position and,
  when \<open>K\<close> divides \<open>N\<close>, the last, or lies in the buckets that hold one position only.
\<close>

lemma shuffled_block_separated:
  fixes K N lo hi :: nat
  assumes K: "2 \<le> K" and N: "K < N" and m: "lo + 2 \<le> hi" and hi: "hi \<le> N"
    and na: "\<not> (lo \<le> 1 \<and> (hi = N \<or> (hi + 1 = N \<and> N mod K = 0)))"
    and nb: "\<not> (N \<le> lo + K \<and> hi \<le> K)"
  shows "\<exists>p x p'. lo \<le> p \<and> p < hi \<and> lo \<le> p' \<and> p' < hi \<and> x < N \<and> \<not> (lo \<le> x \<and> x < hi)
            \<and> shuffled_index K N p < shuffled_index K N x
            \<and> shuffled_index K N x < shuffled_index K N p'"
proof -
  have K0: "0 < K" using K by simp
  have sep: ?thesis
    if "lo \<le> p" "p < hi" "lo \<le> p'" "p' < hi" "x < N" "\<not> (lo \<le> x \<and> x < hi)"
      "p mod K < x mod K \<or> (p mod K = x mod K \<and> p div K < x div K)"
      "x mod K < p' mod K \<or> (x mod K = p' mod K \<and> x div K < p' div K)" for p x p'
  proof -
    have "p < N" using that(2) hi by simp
    from shuffled_index_less [OF K0 this that(7)] shuffled_index_less [OF K0 that(5,8)] that(1-6)
    show ?thesis by blast
  qed
  consider (I) "K \<le> lo" "lo mod K \<noteq> K - 1" | (II) "K \<le> lo" "lo mod K = K - 1"
    | (III) "hi \<le> K" | (V) "lo < K" "K < hi"
    by linarith
  then show ?thesis
  proof cases
    case I
    have s1: "Suc lo mod K = Suc (lo mod K)" using I(2) K by (auto simp: mod_Suc)
    have s2: "Suc lo div K = lo div K" using I(2) K by (auto simp: div_Suc mod_Suc)
    have x1: "(Suc lo - K) mod K = Suc lo mod K" using I(1) by (simp add: le_mod_geq)
    have x2: "Suc lo div K = Suc ((Suc lo - K) div K)" using I(1) K0 by (simp add: le_div_geq)
    show ?thesis
      by (rule sep [of lo "Suc lo" "Suc lo - K"]) (use I m hi K x1 x2 s1 s2 in auto)
  next
    case II
    have s1: "Suc lo mod K = 0" using II(2) K by (auto simp: mod_Suc)
    have x1: "(lo - K) mod K = lo mod K" using II(1) by (simp add: le_mod_geq)
    have x2: "lo div K = Suc ((lo - K) div K)" using II(1) K0 by (simp add: le_div_geq)
    show ?thesis
      by (rule sep [of "Suc lo" lo "lo - K"]) (use II m hi K x1 x2 s1 in auto)
  next
    case III
    then have loK: "lo + K < N" using nb by simp
    have "lo < K" "Suc lo < K" using III m by simp_all
    then have r: "lo mod K = lo" "Suc lo mod K = Suc lo" "lo div K = 0" by simp_all
    have x1: "(lo + K) mod K = lo" "(lo + K) div K = 1" using r K0 by simp_all
    show ?thesis
      by (rule sep [of lo "Suc lo" "lo + K"]) (use III m hi K loK x1 r in auto)
  next
    case V
    have rK: "K mod K = 0" "K div K = 1" using K0 by simp_all
    have rK1: "(K - 1) mod K = K - 1" "(K - 1) div K = 0" using K0 by simp_all
    have blk: "lo \<le> K" "K < hi" "lo \<le> K - 1" "K - 1 < hi" using V by simp_all
    consider (W1) "2 \<le> lo" | (W2) "hi < N" "hi mod K \<noteq> K - 1"
      | (W3) "hi < N" "hi mod K = K - 1" "hi + 1 < N"
      | (R) "lo \<le> 1" "hi = N \<or> (hi mod K = K - 1 \<and> hi + 1 = N)"
      using hi by linarith
    then show ?thesis
    proof cases
      case W1
      then have "3 \<le> K" using V by simp
      then have "1 mod K = 1" "1 div K = 0" by simp_all
      then show ?thesis
        by (intro sep [of K "K - 1" 1]) (use blk W1 N \<open>3 \<le> K\<close> rK rK1 in auto)
    next
      case W2
      have "hi mod K < K" using K0 by simp
      then have lt: "hi mod K < K - 1" using W2(2) by simp
      show ?thesis
      proof (cases "hi mod K = 0")
        case False
        then show ?thesis
          by (intro sep [of K "K - 1" hi]) (use blk W2 lt rK rK1 in auto)
      next
        case True
        then obtain q where q: "hi = K * q" by (auto simp: mod_eq_0_iff_dvd)
        then have "1 < q" using V(2) by (cases q) (auto simp: Suc_lessI)
        then have "1 < hi div K" using q K0 by simp
        then show ?thesis
          by (intro sep [of K "K - 1" hi]) (use blk W2 lt rK rK1 True K in auto)
      qed
    next
      case W3
      have s1: "Suc hi mod K = 0" using W3(2) K by (auto simp: mod_Suc)
      have s2: "Suc hi div K = Suc (hi div K)" using W3(2) K by (auto simp: div_Suc mod_Suc)
      have "0 < hi div K" using V(2) K0 by (simp add: div_greater_zero_iff)
      then show ?thesis
        by (intro sep [of K "K - 1" "Suc hi"]) (use blk W3 s1 s2 rK rK1 K in auto)
    next
      case R
      have "Suc hi mod K = 0" if "hi mod K = K - 1" using that K by (auto simp: mod_Suc)
      then show ?thesis using R na by auto
    qed
  qed
qed

text \<open>
  The labels with one first character make no such run, other than for four elements and
  three characters. With \<open>s\<close> short labels and \<open>d\<close> digits, the first
  character of the label at generated position \<open>p\<close> is \<open>p * K\<close> divided by \<open>K ^ (d - 1)\<close>
  for a short label and \<open>s * K + (p - s)\<close> divided by \<open>K ^ (d - 1)\<close> for a long one.
\<close>

lemma block_not_contiguous:
  fixes K N d lo hi :: nat and s c :: int
  assumes K: "2 \<le> K" and N: "K < N" and d: "N \<le> K ^ d" "K ^ d \<le> K * N"
    and s: "s = (int K ^ d - int N) div int K"
    and blk: "\<And>p. p < N \<Longrightarrow>
                (if int p < s then int p * int K else s * int K + (int p - s)) div int K ^ (d - 1) = c
                  \<longleftrightarrow> lo \<le> p \<and> p < hi"
    and m: "lo + 2 \<le> hi" "hi \<le> N"
    and res: "(lo \<le> 1 \<and> (hi = N \<or> (hi + 1 = N \<and> N mod K = 0))) \<or> (N \<le> lo + K \<and> hi \<le> K)"
  shows "N = 4 \<and> K = 3"
proof -
  define k where "k = int K"
  define n where "n = int N"
  define P where "P = k ^ (d - 1)"
  define t where "t = (k ^ d - n) mod k"
  define num where "num = (\<lambda>p. if int p < s then int p * k else s * k + (int p - s))"
  define H where "H = (\<lambda>p. num p div P)"
  have blk': "H p = c \<longleftrightarrow> lo \<le> p \<and> p < hi" if "p < N" for p
    unfolding H_def num_def P_def k_def by (rule blk [OF that])
  have k2: "2 \<le> k" using K by (simp add: k_def)
  have kn: "k + 1 \<le> n" using N by (simp add: k_def n_def)
  have d2: "2 \<le> d"
  proof (rule ccontr)
    assume "\<not> 2 \<le> d"
    then have "d = 0 \<or> d = 1" by auto
    then have "K ^ d \<le> K" using K by auto
    with d(1) N show False by simp
  qed
  then obtain e where e: "d = Suc (Suc e)" by (metis add_2_eq_Suc le_Suc_ex)
  have kd: "k ^ d = k * P" by (simp add: P_def e)
  have Pk: "P = k * k ^ e" by (simp add: P_def e)
  have ke: "1 \<le> k ^ e" using k2 by simp
  have Pge: "k \<le> P" unfolding Pk using ke k2 by (simp add: mult_le_cancel_left1)
  have "int N \<le> int (K ^ d)" "int (K ^ d) \<le> int (K * N)" using d by (simp_all only: of_nat_le_iff)
  then have "n \<le> k ^ d" "k ^ d \<le> k * n" by (simp_all add: k_def n_def)
  then have nP: "n \<le> k * P" "k * P \<le> k * n" by (simp_all only: kd)
  then have Pn: "P \<le> n" using k2 by simp
  have s': "s = (k * P - n) div k" unfolding kd [symmetric] using s by (simp add: k_def n_def)
  have st: "k * P - n = s * k + t" unfolding s' t_def kd by simp
  have t: "0 \<le> t" "t < k" using k2 by (simp_all add: t_def)
  have s0: "0 \<le> s" unfolding s' using nP(1) k2 by (simp add: pos_imp_zdiv_nonneg_iff)
  have sP: "s \<le> P - 2"
  proof -
    have "s * k < (P - 1) * k" using st t kn by (simp add: algebra_simps)
    then have "s < P - 1" using k2 by (simp add: mult_less_cancel_right)
    then show ?thesis by simp
  qed
  have P0: "0 < P" using Pge k2 by simp
  have num0: "0 \<le> num p" for p using s0 k2
    by (auto simp: num_def intro!: add_nonneg_nonneg mult_nonneg_nonneg)
  have H_zero: "H p = 0" if "num p < P" for p
    unfolding H_def using num0 [of p] that by (simp add: div_pos_pos_trivial)
  have H_pos: "1 \<le> H p" if "P \<le> num p" for p
    unfolding H_def using pos_imp_zdiv_pos_iff [OF P0, of "num p"] that by simp
  have H0: "H 0 = 0" by (rule H_zero) (use s0 P0 in \<open>auto simp: num_def\<close>)
  have prod: "0 \<le> (k - 2) * (P - 1)" using k2 P0 by (intro mult_nonneg_nonneg) simp_all
  have kP2: "k + 2 * P - 2 \<le> k * P" using prod by (simp add: algebra_simps)
  have N1: "int (N - 1) = n - 1" "int (N - 2) = n - 2" using N K by (simp_all add: n_def)
  have "\<not> int (N - 1) < s" "\<not> int (N - 2) < s" using N1 sP Pn by linarith+
  then have "num (N - 1) = s * k + (int (N - 1) - s)" "num (N - 2) = s * k + (int (N - 2) - s)"
    unfolding num_def by (simp_all only: if_False)
  then have num_last: "num (N - 1) = k * P - t - 1 - s" and num_last2: "num (N - 2) = k * P - t - 2 - s"
    using N1 st by linarith+
  have Hlast: "1 \<le> H (N - 1)"
    by (rule H_pos) (use num_last sP t kP2 in linarith)
  have N0: "0 < N" "N - 1 < N" "N - 2 < N" "1 < N" using N K by simp_all
  have t0: "t = 0" if "N mod K = 0"
  proof -
    have "k dvd n" using that by (simp add: k_def n_def mod_eq_0_iff_dvd)
    then have "k dvd k * P - n" by simp
    then show ?thesis by (simp add: t_def kd mod_eq_0_iff_dvd)
  qed
  have head1: "P = k \<and> 1 \<le> s \<and> c = 1" if "lo = 1"
  proof -
    have "H 1 = c" "H 0 \<noteq> c" using blk' [of 1] blk' [of 0] that m N0 by simp_all
    then have ne: "H 1 \<noteq> 0" using H0 by simp
    have "P \<le> num 1" using H_zero [of 1] ne by (metis not_le)
    moreover have "num 1 = (if 1 < s then k else s * k + (1 - s))" by (simp add: num_def)
    ultimately have "P = k \<and> 1 \<le> s \<and> num 1 = k"
    proof (cases "1 < s")
      case True
      then show ?thesis using \<open>P \<le> num 1\<close> \<open>num 1 = _\<close> Pge by simp
    next
      case False
      then have "s = 0 \<or> s = 1" using s0 by linarith
      then show ?thesis using \<open>P \<le> num 1\<close> \<open>num 1 = _\<close> Pge k2 by auto
    qed
    moreover from this have "H 1 = 1" using k2 by (simp add: H_def)
    ultimately show ?thesis using \<open>H 1 = c\<close> by simp
  qed
  have one: "x < 2 * k" if "x div k = 1" for x
  proof -
    have "x div k * k + x mod k = x" by simp
    then have "k + x mod k = x" unfolding that by simp
    moreover have "x mod k < k" using k2 by simp
    ultimately show ?thesis by linarith
  qed
  from res show ?thesis
  proof
    assume a: "lo \<le> 1 \<and> (hi = N \<or> (hi + 1 = N \<and> N mod K = 0))"
    then consider (a0) "lo = 0" "hi = N" | (a1) "lo = 1" "hi = N"
      | (a2) "lo = 0" "hi + 1 = N" "N mod K = 0" | (a3) "lo = 1" "hi + 1 = N" "N mod K = 0"
      by (cases lo) auto
    then show ?thesis
    proof cases
      case a0
      then have "H 0 = c" "H (N - 1) = c" using blk' [of 0] blk' [of "N - 1"] N0 by simp_all
      with H0 Hlast show ?thesis by simp
    next
      case a1
      from head1 [OF a1(1)] have h: "P = k" "1 \<le> s" "c = 1" by simp_all
      have "lo \<le> N - 1 \<and> N - 1 < hi" using a1 m by linarith
      then have "H (N - 1) = 1" using blk' [of "N - 1"] N0 h(3) by simp
      then have "num (N - 1) < 2 * k" unfolding H_def h(1) by (rule one)
      then have lt: "k * k - t - 1 - s < 2 * k" using num_last h(1) by simp
      have "k < 4"
      proof (rule ccontr)
        assume "\<not> k < 4"
        then have "4 * k \<le> k * k" by simp
        then show False using lt t sP h(1) by linarith
      qed
      then have "k = 2 \<or> k = 3" using k2 by auto
      then show ?thesis
      proof
        assume "k = 2"
        then show ?thesis using sP h by simp
      next
        assume k3: "k = 3"
        then have "s = 1" using sP h by simp
        moreover from this have "t = 2" using lt t k3 by simp
        ultimately have "n = 4" using st h(1) k3 by simp
        then show ?thesis using k3 by (simp add: n_def k_def)
      qed
    next
      case a2
      have "lo \<le> N - 2 \<and> N - 2 < hi" "lo \<le> 0 \<and> 0 < hi" using a2 m by linarith+
      then have "H (N - 2) = c" "H 0 = c" using blk' [of "N - 2"] blk' [of 0] N0 by simp_all
      then have z: "H (N - 2) = 0" using H0 by simp
      have "P \<le> num (N - 2)" using num_last2 t0 [OF a2(3)] sP kP2 k2 by simp
      from H_pos [OF this] z show ?thesis by simp
    next
      case a3
      from head1 [OF a3(1)] have h: "P = k" "1 \<le> s" "c = 1" by simp_all
      have "lo \<le> N - 2 \<and> N - 2 < hi" using a3 m by linarith
      then have "H (N - 2) = 1" using blk' [of "N - 2"] N0 h(3) by simp
      then have "num (N - 2) < 2 * k" unfolding H_def h(1) by (rule one)
      then have lt: "k * k - 2 - s < 2 * k" using num_last2 t0 [OF a3(3)] h(1) by simp
      have "k < 3"
      proof (rule ccontr)
        assume "\<not> k < 3"
        then have "3 * k \<le> k * k" by simp
        then show False using lt sP h(1) by linarith
      qed
      then show ?thesis using k2 sP h by simp
    qed
  next
    assume b: "N \<le> lo + K \<and> hi \<le> K"
    then have n2k: "n \<le> 2 * k - 2" using m by (simp add: n_def k_def)
    have "k * k ^ e < k * 2" using Pn n2k Pk by simp
    then have "k ^ e < 2" using k2 by (simp add: mult_less_cancel_left)
    then have "k ^ e = 1" using ke by simp
    then have Pk': "P = k" using Pk by simp
    have "(k - 3) * k < s * k" using st t n2k Pk' by (simp add: algebra_simps)
    then have "k - 3 < s" using k2 by (simp add: mult_less_cancel_right)
    then have sk: "s = k - 2" using sP Pk' by simp
    have Hlo: "H lo = c" "H (Suc lo) = c" using blk' [of lo] blk' [of "Suc lo"] m by simp_all
    have ge: "s \<le> int lo"
    proof (rule ccontr)
      assume "\<not> s \<le> int lo"
      then have lt: "int lo < s" by simp
      then have "H lo = int lo" using k2 by (simp add: H_def num_def Pk')
      moreover have "(int lo + 1) * k \<le> num (Suc lo)"
      proof (cases "int (Suc lo) < s")
        case True
        then show ?thesis by (simp add: num_def algebra_simps)
      next
        case False
        then have "int lo + 1 = s" using lt by simp
        then show ?thesis using False by (simp add: num_def algebra_simps)
      qed
      then have "((int lo + 1) * k) div k \<le> H (Suc lo)"
        unfolding H_def Pk' using k2 by (intro zdiv_mono1) simp_all
      then have "int lo + 1 \<le> H (Suc lo)" using k2 by simp
      ultimately show False using Hlo by simp
    qed
    have "int lo + 2 \<le> k" using b m by (simp add: k_def)
    then have lo: "int lo = k - 2" using ge sk by simp
    then have hiK: "hi = K" using b m by (simp add: k_def)
    have K1: "K - 1 < N" "lo \<le> K - 1" "K - 1 < hi" using N K hiK m by simp_all
    have "int (K - 1) = k - 1" using K by (simp add: k_def)
    then have "num (K - 1) = s * k + 1" using sk by (simp add: num_def)
    then have "H (K - 1) = s" using k2 by (simp add: H_def Pk')
    then have cs: "c = s" using blk' [OF K1(1)] K1 by simp
    have "num K = s * k + 2" using sk by (simp add: num_def k_def [symmetric])
    moreover have "H K \<noteq> c" using blk' [OF N] hiK by simp
    ultimately have "(s * k + 2) div k \<noteq> s" using cs by (simp add: H_def Pk')
    then have "k = 2" using k2 by (cases "k = 2") auto
    then show ?thesis using lo b N by (simp add: k_def)
  qed
qed

lemma generated_head_nth:
  fixes es :: "'a list"
  assumes k: "2 \<le> length chars" and big: "length chars < length es"
    and ok: "ceil_log_ok ceil_log (length es) (length chars)"
    and len_s: "int (length shorts) = (if 1 < ceil_log (length es) (length chars)
                                    then short_count ceil_log (length es) (length chars) else 0)"
    and len_l: "int (length longs) = int (length es) - short_count ceil_log (length es) (length chars)"
    and sl: "\<forall>l\<in>set shorts. length l = ceil_log (length es) (length chars) - 1 \<and> set l \<subseteq> set chars"
    and ll: "\<forall>l\<in>set longs. length l = max 1 (ceil_log (length es) (length chars)) \<and> set l \<subseteq> set chars"
    and sv: "map (hint_str_to_number chars) shorts =
               (if 1 < ceil_log (length es) (length chars)
                then [0..short_count ceil_log (length es) (length chars) - 1] else [])"
    and lv: "map (hint_str_to_number chars) longs =
               [short_count ceil_log (length es) (length chars) * int (length chars)..
                short_count ceil_log (length es) (length chars) * int (length chars)
                  + (int (length es) - short_count ceil_log (length es) (length chars)) - 1]"
    and p: "p < length es"
  shows "int (char_index chars (hd ((shorts @ longs) ! p)))
           = (if int p < short_count ceil_log (length es) (length chars)
              then int p * int (length chars)
              else short_count ceil_log (length es) (length chars) * int (length chars)
                     + (int p - short_count ceil_log (length es) (length chars)))
             div int (length chars) ^ (ceil_log (length es) (length chars) - 1)"
proof -
  define K where "K = int (length chars)"
  define d where "d = ceil_log (length es) (length chars)"
  define s where "s = short_count ceil_log (length es) (length chars)"
  define H where "H = (\<lambda>l. int (char_index chars (hd l)))"
  have d2: "1 < d"
  proof (rule ccontr)
    assume "\<not> 1 < d"
    then have "d = 0 \<or> d = 1" by auto
    then have "length chars ^ d \<le> length chars" using k by auto
    moreover have "length es \<le> length chars ^ d" using ok by (simp add: ceil_log_ok_def d_def)
    ultimately show False using big by simp
  qed
  note len_s' = len_s [folded d_def s_def] and len_l' = len_l [folded s_def]
    and sl' = sl [folded d_def] and ll' = ll [folded d_def]
    and sv' = sv [folded s_def d_def] and lv' = lv [folded s_def d_def, folded K_def]
  have ls: "int (length shorts) = s" using len_s' d2 by simp
  have sv'': "map (hint_str_to_number chars) shorts = [0..s - 1]" using sv' d2 by simp
  have kpos: "0 < length chars" using k by linarith
  have Kpos: "0 < K" using kpos by (simp add: K_def)
  have Lpos: "0 < max 1 d" by simp
  have dpos: "0 < d - 1" using d2 by simp
  note long = heads_of_block(1) [OF ll' Lpos kpos lv', folded H_def K_def]
  note short = heads_of_block(1) [OF sl' dpos kpos sv'', folded H_def K_def]
  have pw: "K ^ (d - 1) = K ^ (d - 1 - 1) * K" using d2 by (cases d; cases "d - 1") simp_all
  have md: "max 1 d - 1 = d - 1" using d2 by simp
  have "H ((shorts @ longs) ! p)
          = (if int p < s then int p * K else s * K + (int p - s)) div K ^ (d - 1)"
  proof (cases "int p < s")
    case True
    then have pl: "p < length shorts" using ls by simp
    then have "H ((shorts @ longs) ! p) = map H shorts ! p" by (simp add: nth_append)
    also have "\<dots> = ([0..s - 1] ! p) div K ^ (d - 1 - 1)"
      unfolding short using True by (subst nth_map) simp_all
    also have "[0..s - 1] ! p = 0 + int p" using True by (intro nth_upto) simp
    also have "(0 + int p) div K ^ (d - 1 - 1) = (int p * K) div (K ^ (d - 1 - 1) * K)"
      using Kpos by (simp add: div_mult_mult2)
    finally have "H ((shorts @ longs) ! p) = (int p * K) div (K ^ (d - 1 - 1) * K)" .
    then show ?thesis unfolding pw using True by (simp only: if_True)
  next
    case False
    then have pl: "\<not> p < length shorts" using ls by simp
    have ip: "int (p - length shorts) = int p - s" using pl ls by simp
    have pl': "p - length shorts < length longs" using p pl len_l' ls by linarith
    have "H ((shorts @ longs) ! p) = map H longs ! (p - length shorts)"
      using pl pl' by (simp add: nth_append)
    also have "\<dots> = ([s * K..s * K + (int (length es) - s) - 1] ! (p - length shorts)) div K ^ (d - 1)"
      unfolding long md using pl' len_l' by (subst nth_map) simp_all
    also have "[s * K..s * K + (int (length es) - s) - 1] ! (p - length shorts)
                 = s * K + int (p - length shorts)"
      using pl' len_l' by (intro nth_upto) simp
    finally have "H ((shorts @ longs) ! p) = (s * K + (int p - s)) div K ^ (d - 1)"
      by (simp only: ip)
    then show ?thesis using False by (simp only: if_False)
  qed
  then show ?thesis by (simp add: H_def K_def d_def s_def)
qed


section \<open>Properties of the session\<close>

lemma fold_delete_filter: "fold AList.delete ks ys = filter (\<lambda>kv. fst kv \<notin> set ks) ys"
proof (induction ks arbitrary: ys)
  case Nil
  then show ?case by simp
next
  case (Cons k ks)
  have "AList.delete k ys = filter (\<lambda>kv. fst kv \<noteq> k) ys"
    by (simp add: AList.delete_eq case_prod_unfold eq_commute)
  then show ?case using Cons.IH [of "AList.delete k ys"] by (auto intro: filter_cong)
qed

lemma handle_partial_key_elems:
  "elems (snd (handle_partial_key keystr self)) = filter (\<lambda>kv. prefix keystr (fst kv)) (elems self)"
proof -
  have "filter (\<lambda>kv. fst kv \<notin> set (map fst (filter (\<lambda>kv. \<not> prefix keystr (fst kv)) (elems self)))) (elems self)
          = filter (\<lambda>kv. prefix keystr (fst kv)) (elems self)"
    by (rule filter_cong) force+
  then show ?thesis by (simp add: handle_partial_key_def Let_def fold_delete_filter)
qed

lemma start_active:
  assumes "start ceil_log chars self fr b mode t = Some (Returned, events, self')"
    and "map_of SELECTORS mode = Some selector"
    and "filter (visible fr mode) (find_all_elements fr selector) \<noteq> []"
  shows "active self'"
  using assms
  by (auto simp: start_def Let_def active_def split: option.splits sum.splits
      dest!: map_of_SomeD intro: rev_image_eqI)

lemma stop_active:
  assumes "active self"
  shows "\<exists>fr. frame self = Some fr
           \<and> stop self = (Returned, map (\<lambda>kv. RemoveLabel (snd (snd kv))) (elems self) @ [MessageClear],
                self\<lparr>connections := removeAll (frame_id fr) (connections self),
                     elems := [], target := None, frame := None, input_mode := ''normal''\<rparr>)"
  using assms by (auto simp: active_def stop_def Let_def split: option.splits)

lemma click_framed:
  assumes "frame self = Some fr"
  shows "click self e t = (Returned, [SetOpenTarget t,
           MouseClick e (click_point fr e)])"
  using assms by (simp add: click_def)

lemma fire_action_returns:
  assumes "frame self = Some fr" and "target self = Some t"
  shows "fire_action self e link =
           (Returned,
            if t \<in> set [''normal'', ''tab'', ''bgtab''] then
              [SetOpenTarget t, MouseClick e (click_point fr e)]
            else if t = ''rapid'' then
              [SetOpenTarget ''bgtab'', MouseClick e (click_point fr e)]
            else if t \<in> set [''yank'', ''yank_primary''] then yank (the link) (t = ''yank_primary'')
            else if t \<in> set [''cmd'', ''cmd_tab'', ''cmd_bgtab''] then
              [SetCmdText (the (map_of commands t)) (the link)]
            else [])"
  unfolding fire_action_def assms(2) option.case click_framed [OF assms(1)]
  by (simp only: if_distrib [of "Pair Returned"] split: if_splits)

section \<open>The label generator: statements\<close>

text \<open>
  C1. For a non-empty list of elements and a charset of at least two distinct
  characters, \<^verbatim>\<open>_hint_strings\<close> returns as many labels as there are elements (one per
  element, in the elements' order), the labels are pairwise distinct, and none is a proper
  prefix of another. The rounded logarithm is asked to give enough digits and at most
  one too many (\<open>ceil_log_ok\<close>).
\<close>

theorem hint_strings_prefix_free:
  fixes es :: "'a list"
  assumes k: "2 \<le> length chars" and dist: "distinct chars" and n: "es \<noteq> []"
    and ok: "ceil_log_ok ceil_log (length es) (length chars)"
  shows "\<exists>labels. hint_strings ceil_log es chars = Some (Inr labels)
           \<and> length labels = length es
           \<and> distinct labels
           \<and> (\<forall>a\<in>set labels. \<forall>b\<in>set labels. \<not> strict_prefix a b)"
proof -
  define K where "K = length chars"
  define N where "N = length es"
  define d where "d = ceil_log N K"
  define s where "s = short_count ceil_log N K"
  have n1: "1 \<le> N" using n by (cases es) (simp_all add: N_def)
  have k2: "2 \<le> K" using k by (simp add: K_def)
  have ok': "ceil_log_ok ceil_log N K" using ok by (simp add: N_def K_def)
  note b = short_count_bounds [OF k2 n1 ok', folded s_def d_def]
  from hint_strings_structure [OF k n ok, folded K_def N_def, folded s_def d_def] dist
  obtain shorts longs r where
    res: "hint_strings ceil_log es chars = Some (Inr r)" and
    ms: "mset r = mset (shorts @ longs)" and
    len_s: "int (length shorts) = (if 1 < d then s else 0)" and
    len_l: "int (length longs) = int N - s" and
    sl: "\<forall>l\<in>set shorts. length l = d - 1 \<and> set l \<subseteq> set chars" and
    ll: "\<forall>l\<in>set longs. length l = max 1 d \<and> set l \<subseteq> set chars" and
    sv: "map (hint_str_to_number chars) shorts = (if 1 < d then [0..s - 1] else [])" and
    lv: "map (hint_str_to_number chars) longs = [s * int K..s * int K + (int N - s) - 1]"
    by blast
  have s_zero: "s = 0" if "\<not> 1 < d" using b(3) that by simp
  have "int (length r) = int (length shorts) + int (length longs)"
    using ms by (metis length_append of_nat_add size_mset)
  then have len: "length r = N" using len_s len_l s_zero by (auto split: if_splits)
  have short_d: "1 < d" if "a \<in> set shorts" for a
  proof (rule ccontr)
    assume "\<not> 1 < d"
    then have "length shorts = 0" using len_s by simp
    with that show False by simp
  qed
  have "distinct (map (hint_str_to_number chars) shorts)" unfolding sv by simp
  then have d_s: "distinct shorts" by (simp add: distinct_map)
  have "distinct (map (hint_str_to_number chars) longs)" unfolding lv by simp
  then have d_l: "distinct longs" by (simp add: distinct_map)
  have disj: "set shorts \<inter> set longs = {}"
  proof (rule ccontr)
    assume "set shorts \<inter> set longs \<noteq> {}"
    then obtain a where a: "a \<in> set shorts" "a \<in> set longs" by blast
    then have "length a = d - 1" "length a = max 1 d" using sl ll by blast+
    with short_d [OF a(1)] show False by simp
  qed
  have "distinct (shorts @ longs)" using d_s d_l disj by simp
  then have dr: "distinct r" using ms by (metis mset_eq_imp_distinct_iff)
  have set_r: "set r = set shorts \<union> set longs" using ms by (metis mset_eq_setD set_append)
  have pf: "\<not> strict_prefix a c" if a: "a \<in> set r" and c: "c \<in> set r" for a c
  proof
    assume sp: "strict_prefix a c"
    then have less: "length a < length c" by (rule prefix_length_less)
    have "a \<in> set shorts \<and> c \<in> set longs"
    proof (rule ccontr)
      assume neg: "\<not> (a \<in> set shorts \<and> c \<in> set longs)"
      consider "a \<in> set shorts" "c \<in> set shorts" | "a \<in> set longs" "c \<in> set longs"
        | "a \<in> set longs" "c \<in> set shorts"
        using a c set_r neg by blast
      then show False
      proof cases
        case 1
        then have "length a = d - 1" "length c = d - 1" using sl by blast+
        then show ?thesis using less by simp
      next
        case 2
        then have "length a = max 1 d" "length c = max 1 d" using ll by blast+
        then show ?thesis using less by simp
      next
        case 3
        then have "length a = max 1 d" "length c = d - 1" using sl ll by blast+
        then show ?thesis using less by simp
      qed
    qed
    then have as: "a \<in> set shorts" and cl: "c \<in> set longs" by simp_all
    have d1: "1 < d" using short_d [OF as] .
    have "length a = d - 1" "length c = max 1 d" using as cl sl ll by blast+
    then have "length c = Suc (length a)" using d1 by simp
    from strict_prefix_one_longer [OF sp this] obtain x where x: "c = a @ [x]" by blast
    have "set c \<subseteq> set chars" using cl ll by simp
    then have xin: "x \<in> set chars" using x by simp
    have "hint_str_to_number chars a \<in> set (map (hint_str_to_number chars) shorts)"
      using as by simp
    then have av: "hint_str_to_number chars a \<le> s - 1" unfolding sv using d1 by simp
    have "hint_str_to_number chars c \<in> set (map (hint_str_to_number chars) longs)"
      using cl by simp
    then have cv: "s * int K \<le> hint_str_to_number chars c" unfolding lv by simp
    have "hint_str_to_number chars c < hint_str_to_number chars a * int K + int K"
      using hint_str_to_number_snoc(2) [OF xin, of a] by (simp add: x K_def)
    moreover have "hint_str_to_number chars a * int K \<le> (s - 1) * int K"
      using av by (intro mult_right_mono) simp_all
    ultimately have "hint_str_to_number chars c < (s - 1) * int K + int K" by linarith
    then have "hint_str_to_number chars c < s * int K" by (simp add: algebra_simps)
    with cv show False by simp
  qed
  show ?thesis using res len dr pf by (auto simp: N_def)
qed

theorem hint_strings_prefix_free_witness:
  "2 \<le> length ''ab'' \<and> distinct ''ab'' \<and> ceil_log_ok exact_ceil_log 3 2
     \<and> (\<exists>labels. hint_strings exact_ceil_log [1, 2, 3 :: nat] ''ab'' = Some (Inr labels)
            \<and> length labels = 3 \<and> distinct labels)"
proof -
  have h1: "2 \<le> length ''ab''" by simp
  have h2: "distinct ''ab''" by simp
  have h3: "[1, 2, 3 :: nat] \<noteq> []" by simp
  have h4: "ceil_log_ok exact_ceil_log (length [1, 2, 3 :: nat]) (length ''ab'')" by code_simp
  have h5: "ceil_log_ok exact_ceil_log 3 2" by code_simp
  from hint_strings_prefix_free [OF h1 h2 h3 h4] h1 h2 h5 show ?thesis by auto
qed

text \<open>
  C2 asks for labels of \<open>d\<close> or \<open>d - 1\<close> characters, \<open>d\<close> being the exact \<open>\<lceil>log\<^bsub>K\<^esub> N\<rceil>\<close>.
  Where the logarithm is rounded to that value the labels are so
  (\<open>hint_strings_lengths_exact\<close>). At 125 elements and a charset of five characters the
  exact value is \<open>3\<close>, but the double-precision quotient \<^verbatim>\<open>math.log(125, 5)\<close> is
  \<^verbatim>\<open>3.0000000000000004\<close>, so that \<^verbatim>\<open>needed\<close> is \<open>4\<close>; with it 25 of the 125 labels
  have four characters.
\<close>

theorem hint_strings_rounded_log_125_5:
  "exact_ceil_log 125 5 = 3
     \<and> (\<exists>labels. hint_strings (\<lambda>n k. 4) (replicate 125 ()) ''asdfg'' = Some (Inr labels)
            \<and> length (filter (\<lambda>l. length l = 4) labels) = 25)"
proof -
  have h1: "2 \<le> length ''asdfg''" by simp
  have h2: "replicate 125 () \<noteq> []" by simp
  have h3: "ceil_log_ok (\<lambda>n k. 4) (length (replicate 125 ())) (length ''asdfg'')"
    by code_simp
  have h4: "short_count (\<lambda>n k. 4) (length (replicate 125 ())) (length ''asdfg'') = 100"
    by code_simp
  have h5: "exact_ceil_log 125 5 = 3" by code_simp
  from hint_strings_lengths [OF h1 h2 h3] h4 h5 show ?thesis by auto
qed



text \<open>
  C4, as amended. Under the conditions of C1, for a character that at least \<open>K\<close> of the
  returned labels begin with, two neighbouring positions of such labels in the returned
  list are at most \<open>\<lceil>N / K\<rceil>\<close> apart. When \<open>N > K\<close>, other than for \<open>N = 4\<close> with \<open>K = 3\<close>,
  the labels that begin with one character, if there are two of them or more, never all
  stand together: two neighbouring positions of them are more than one apart. The labels
  that begin with one character follow each other in the order of generation; the
  shuffle puts position \<open>p\<close> of that order into bucket \<open>p mod K\<close>, at place \<open>p div K\<close>.
\<close>

theorem hint_strings_head_gaps:
  fixes es :: "'a list"
  assumes k: "2 \<le> length chars" and dist: "distinct chars" and n: "es \<noteq> []"
    and ok: "ceil_log_ok ceil_log (length es) (length chars)"
  shows "\<exists>labels. hint_strings ceil_log es chars = Some (Inr labels)
           \<and> (\<forall>c. length chars \<le> length (head_positions c labels) \<longrightarrow>
                 (\<forall>g\<in>set (gaps (head_positions c labels)).
                    g \<le> (length es + length chars - 1) div length chars))
           \<and> (length chars < length es \<and> \<not> (length es = 4 \<and> length chars = 3) \<longrightarrow>
                 (\<forall>c. 2 \<le> length (head_positions c labels) \<longrightarrow>
                    (\<exists>g\<in>set (gaps (head_positions c labels)). 1 < g)))"
proof -
  define K where "K = length chars"
  define N where "N = length es"
  define C where "C = (N + K - 1) div K"
  have Kpos: "0 < K" using k by (auto simp: K_def)
  from hint_strings_structure [OF k n ok] dist
  obtain shorts longs r where
    res: "hint_strings ceil_log es chars = Some (Inr r)" and
    ms: "mset r = mset (shorts @ longs)" and
    sh: "shuffle_hints (shorts @ longs) (length chars) = Inr r" and
    len_s: "int (length shorts) = (if 1 < ceil_log (length es) (length chars)
                                    then short_count ceil_log (length es) (length chars) else 0)" and
    len_l: "int (length longs) = int (length es) - short_count ceil_log (length es) (length chars)" and
    sl: "\<forall>l\<in>set shorts. length l = ceil_log (length es) (length chars) - 1 \<and> set l \<subseteq> set chars" and
    ll: "\<forall>l\<in>set longs. length l = max 1 (ceil_log (length es) (length chars)) \<and> set l \<subseteq> set chars" and
    sv: "map (hint_str_to_number chars) shorts =
               (if 1 < ceil_log (length es) (length chars)
                then [0..short_count ceil_log (length es) (length chars) - 1] else [])" and
    lv: "map (hint_str_to_number chars) longs =
               [short_count ceil_log (length es) (length chars) * int (length chars)..
                short_count ceil_log (length es) (length chars) * int (length chars)
                  + (int (length es) - short_count ceil_log (length es) (length chars)) - 1]"
    by blast
  define raw where "raw = shorts @ longs"
  define pi where "pi = shuffled_positions K (length raw)"
  define H where "H = (\<lambda>l. int (char_index chars (hd l)))"
  have sorted: "sorted (map H raw)"
    unfolding H_def raw_def by (rule generated_heads_sorted [OF k n ok sl ll sv lv])
  have n1: "1 \<le> N" using n by (cases es) (simp_all add: N_def)
  have k2: "2 \<le> K" using k by (simp add: K_def)
  have ok': "ceil_log_ok ceil_log N K" using ok by (simp add: N_def K_def)
  note b = short_count_bounds [OF k2 n1 ok']
  have "int (length raw) = int N"
    using len_s len_l b(3) by (auto simp: raw_def N_def K_def split: if_splits)
  then have len_raw: "length raw = N" by simp
  have r_eq: "r = map (nth raw) pi"
    using sh shuffle_hints_positions [OF Kpos, of raw] by (simp add: raw_def pi_def K_def)
  have len_pi: "length pi = N" unfolding pi_def len_raw by (rule length_shuffled_positions [OF Kpos])
  have len_r: "length r = N" by (simp add: r_eq len_pi)
  have pi_lt: "pi ! i < N" if "i < N" for i
  proof -
    have "pi ! i \<in> set pi" using that len_pi by simp
    moreover have "set pi = set [0..<N]"
      unfolding pi_def len_raw using shuffled_positions_perm [OF Kpos, of N] by (rule mset_eq_setD)
    ultimately show ?thesis by simp
  qed
  have raw_ok: "raw ! p \<noteq> [] \<and> set (raw ! p) \<subseteq> set chars" if "p < N" for p
  proof -
    have "raw ! p \<in> set shorts \<union> set longs" using that len_raw by (metis nth_mem raw_def set_append)
    moreover have "l \<noteq> [] \<and> set l \<subseteq> set chars" if "l \<in> set longs" for l
      using ll that by (metis length_0_conv max_nat.eq_neutr_iff zero_neq_one)
    moreover have "l \<noteq> [] \<and> set l \<subseteq> set chars" if "l \<in> set shorts" for l
    proof -
      have "1 < ceil_log (length es) (length chars)"
      proof (rule ccontr)
        assume "\<not> 1 < ceil_log (length es) (length chars)"
        then have "length shorts = 0" using len_s by simp
        with that show False by simp
      qed
      then show ?thesis using sl that by fastforce
    qed
    ultimately show ?thesis by blast
  qed
  have inj: "hd (raw ! p) = c" if "p < N" "c \<in> set chars" "H (raw ! p) = int (char_index chars c)" for p c
  proof -
    have "hd (raw ! p) \<in> set chars" using raw_ok [OF that(1)] by (metis hd_in_set subsetD)
    moreover have "char_index chars (hd (raw ! p)) = char_index chars c"
      using that(3) by (simp add: H_def)
    ultimately show ?thesis using that(2) by (metis char_index_inverse)
  qed
  have block: "\<exists>lo hi. hi \<le> N \<and> length (head_positions c r) = hi - lo \<and> c \<in> set chars
                 \<and> head_positions c r = filter (\<lambda>i. lo \<le> pi ! i \<and> pi ! i < hi) [0..<N]
                 \<and> (\<forall>p<N. hd (raw ! p) = c \<longleftrightarrow> lo \<le> p \<and> p < hi)"
    if some: "head_positions c r \<noteq> []" for c
  proof -
    define Q where "Q = (\<lambda>p. p < N \<and> hd (raw ! p) = c)"
    define S where "S = {p. Q p}"
    have hp: "head_positions c r = filter (\<lambda>i. Q (pi ! i)) [0..<N]"
      unfolding head_positions_def len_r
    proof (rule filter_cong [OF refl])
      fix i assume "i \<in> set [0..<N]"
      then have i: "i < N" by simp
      then have "r ! i = raw ! (pi ! i)" by (simp add: r_eq len_pi)
      then show "(r ! i \<noteq> [] \<and> hd (r ! i) = c) \<longleftrightarrow> Q (pi ! i)"
        using raw_ok [OF pi_lt [OF i]] pi_lt [OF i] by (simp add: Q_def)
    qed
    have cnt: "length (head_positions c r) = length (filter Q [0..<N])"
      unfolding hp pi_def len_raw by (rule count_shuffled_positions [OF Kpos])
    have fin: "finite S" by (rule finite_subset [of _ "{0..<N}"]) (auto simp: S_def Q_def)
    have "filter Q [0..<N] \<noteq> []" using some cnt by auto
    then have ne: "S \<noteq> {}" by (auto simp: S_def filter_empty_conv)
    then obtain p0 where p0: "p0 < N" "hd (raw ! p0) = c" by (auto simp: S_def Q_def)
    have c_in: "c \<in> set chars" using raw_ok [OF p0(1)] p0(2) by (metis hd_in_set subsetD)
    have convex: "p' \<in> S" if "p \<in> S" "p'' \<in> S" "p \<le> p'" "p' \<le> p''" for p p' p''
    proof -
      from that have p: "p < N" "hd (raw ! p) = c" and p'': "p'' < N" "hd (raw ! p'') = c"
        by (simp_all add: S_def Q_def)
      have p': "p' < N" using that(4) p''(1) by simp
      have "map H raw ! p \<le> map H raw ! p'" "map H raw ! p' \<le> map H raw ! p''"
        using sorted that(3,4) p' p''(1) len_raw by (simp_all add: sorted_nth_mono del: nth_map)
      then have "H (raw ! p) \<le> H (raw ! p')" "H (raw ! p') \<le> H (raw ! p'')"
        using p(1) p' p''(1) len_raw by simp_all
      then have "H (raw ! p') = H (raw ! p)" using p(2) p''(2) by (simp add: H_def)
      then have "H (raw ! p') = int (char_index chars c)" using p(2) by (simp add: H_def)
      from inj [OF p' c_in this] show ?thesis using p' by (simp add: S_def Q_def)
    qed
    define lo where "lo = Min S"
    define hi where "hi = Suc (Max S)"
    have S_eq: "S = {lo..<hi}"
      unfolding lo_def hi_def using fin ne convex by (rule convex_positions_interval)
    have "Max S \<in> S" using fin ne by simp
    then have hiN: "hi \<le> N" by (simp add: hi_def S_def Q_def)
    have Q_iff: "Q p \<longleftrightarrow> lo \<le> p \<and> p < hi" for p
      using S_eq by (auto simp: S_def)
    have "filter Q [0..<N] = [lo..<hi]"
      unfolding Q_iff by (rule filter_interval [OF hiN])
    then have "length (head_positions c r) = hi - lo" using cnt by simp
    moreover have "head_positions c r = filter (\<lambda>i. lo \<le> pi ! i \<and> pi ! i < hi) [0..<N]"
      using hp by (simp only: Q_iff)
    moreover have "\<forall>p<N. hd (raw ! p) = c \<longleftrightarrow> lo \<le> p \<and> p < hi"
      using Q_iff unfolding Q_def by blast
    ultimately show ?thesis using hiN c_in by blast
  qed
  show ?thesis
  proof (intro exI conjI allI impI)
    show "hint_strings ceil_log es chars = Some (Inr r)" by (rule res)
  next
    fix c
    assume many: "length chars \<le> length (head_positions c r)"
    then have "head_positions c r \<noteq> []" using k by auto
    from block [OF this] obtain lo hi where
      hiN: "hi \<le> N" and len: "length (head_positions c r) = hi - lo" and
      hp: "head_positions c r = filter (\<lambda>i. lo \<le> pi ! i \<and> pi ! i < hi) [0..<N]"
      by blast
    have run: "lo + K \<le> hi" using many len k unfolding K_def by linarith
    have step: "\<exists>m. i < m \<and> m \<le> i + C \<and> lo \<le> pi ! m \<and> pi ! m < hi"
      if "i < j" "j < N" "lo \<le> pi ! i \<and> pi ! i < hi" "lo \<le> pi ! j \<and> pi ! j < hi" for i j
    proof -
      from that(3,4) have "lo \<le> pi ! i" "pi ! i < hi" "lo \<le> pi ! j" "pi ! j < hi"
        by simp_all
      from shuffled_run_gap [OF Kpos hiN run that(1,2) this [unfolded pi_def len_raw]]
      show ?thesis unfolding C_def pi_def len_raw by blast
    qed
    have "\<forall>g\<in>set (gaps (filter (\<lambda>i. lo \<le> pi ! i \<and> pi ! i < hi) [0..<N])). g \<le> C"
      by (rule gaps_filter_bound) (use step in blast)
    then show "\<forall>g\<in>set (gaps (head_positions c r)). g \<le> (length es + length chars - 1) div length chars"
      by (simp add: hp C_def N_def K_def)
  next
    fix c
    assume big: "length chars < length es \<and> \<not> (length es = 4 \<and> length chars = 3)"
      and two: "2 \<le> length (head_positions c r)"
    from two have "head_positions c r \<noteq> []" by auto
    from block [OF this] obtain lo hi where
      hiN: "hi \<le> N" and len: "length (head_positions c r) = hi - lo" and c_in: "c \<in> set chars" and
      hp: "head_positions c r = filter (\<lambda>i. lo \<le> pi ! i \<and> pi ! i < hi) [0..<N]" and
      blk: "\<forall>p<N. hd (raw ! p) = c \<longleftrightarrow> lo \<le> p \<and> p < hi"
      by blast
    have m: "lo + 2 \<le> hi" using two len by linarith
    have KN: "K < N" using big by (simp add: K_def N_def)
    have pw: "N \<le> K ^ ceil_log N K" "K ^ ceil_log N K \<le> K * N"
      using ok' by (simp_all add: ceil_log_ok_def)
    have heads: "(if int p < short_count ceil_log N K then int p * int K
                  else short_count ceil_log N K * int K + (int p - short_count ceil_log N K))
                   div int K ^ (ceil_log N K - 1) = int (char_index chars c)
                 \<longleftrightarrow> lo \<le> p \<and> p < hi" if p: "p < N" for p
    proof -
      have "p < length es" using p by (simp add: N_def)
      from generated_head_nth [OF k conjunct1 [OF big] ok len_s len_l sl ll sv lv this]
      have e: "H (raw ! p)
                 = (if int p < short_count ceil_log N K then int p * int K
                    else short_count ceil_log N K * int K + (int p - short_count ceil_log N K))
                   div int K ^ (ceil_log N K - 1)"
        by (simp add: H_def raw_def N_def K_def)
      have "H (raw ! p) = int (char_index chars c) \<longleftrightarrow> hd (raw ! p) = c"
        using inj [OF p c_in] by (auto simp: H_def)
      then show ?thesis using blk p by (simp only: e)
    qed
    have none: "\<not> ((lo \<le> 1 \<and> (hi = N \<or> (hi + 1 = N \<and> N mod K = 0))) \<or> (N \<le> lo + K \<and> hi \<le> K))"
    proof
      assume "(lo \<le> 1 \<and> (hi = N \<or> (hi + 1 = N \<and> N mod K = 0))) \<or> (N \<le> lo + K \<and> hi \<le> K)"
      from block_not_contiguous [OF k2 KN pw _ heads m hiN this] have "N = 4 \<and> K = 3"
        by (simp add: short_count_def)
      then show False using big by (simp add: K_def N_def)
    qed
    have na: "\<not> (lo \<le> 1 \<and> (hi = N \<or> (hi + 1 = N \<and> N mod K = 0)))"
      using none by simp
    have nb: "\<not> (N \<le> lo + K \<and> hi \<le> K)"
      using none by simp
    from shuffled_block_separated [OF k2 KN m hiN na nb] obtain p x p' where
      p: "lo \<le> p" "p < hi" and p': "lo \<le> p'" "p' < hi" and x: "x < N" "\<not> (lo \<le> x \<and> x < hi)" and
      lt: "shuffled_index K N p < shuffled_index K N x" "shuffled_index K N x < shuffled_index K N p'"
      by blast
    have pN: "p < N" "p' < N" using p p' hiN by simp_all
    have at: "pi ! shuffled_index K N q = q" "shuffled_index K N q < N" if "q < N" for q
      unfolding pi_def len_raw using shuffled_index_nth [OF Kpos that] by simp_all
    have "\<exists>g\<in>set (gaps (filter (\<lambda>i. lo \<le> pi ! i \<and> pi ! i < hi) [0..<N])). 1 < g"
      by (rule gaps_filter_gap [of 0 "shuffled_index K N p" "shuffled_index K N x" "shuffled_index K N p'"])
        (use lt at pN x p p' in simp_all)
    then show "\<exists>g\<in>set (gaps (head_positions c r)). 1 < g" by (simp only: hp)
  qed
qed

theorem hint_strings_head_gaps_witness:
  "2 \<le> length ''ab'' \<and> distinct ''ab'' \<and> ceil_log_ok exact_ceil_log 4 2
     \<and> hint_strings exact_ceil_log [1, 2, 3, 4 :: nat] ''ab'' = Some (Inr [''aa'', ''ba'', ''ab'', ''bb''])
     \<and> length ''ab'' \<le> length (head_positions CHR ''a'' [''aa'', ''ba'', ''ab'', ''bb''])
     \<and> gaps (head_positions CHR ''a'' [''aa'', ''ba'', ''ab'', ''bb'']) = [2]
     \<and> (2 :: nat) \<le> (length [1, 2, 3, 4 :: nat] + length ''ab'' - 1) div length ''ab''
     \<and> length ''ab'' < length [1, 2, 3, 4 :: nat]
     \<and> (\<exists>g\<in>set (gaps (head_positions CHR ''a'' [''aa'', ''ba'', ''ab'', ''bb''])). 1 < g)"
proof -
  have h1: "2 \<le> length ''ab''" by simp
  have h2: "distinct ''ab''" by simp
  have h3: "[1, 2, 3, 4 :: nat] \<noteq> []" by simp
  have h4: "ceil_log_ok exact_ceil_log (length [1, 2, 3, 4 :: nat]) (length ''ab'')" by code_simp
  have h5: "ceil_log_ok exact_ceil_log 4 2" by code_simp
  have h6: "hint_strings exact_ceil_log [1, 2, 3, 4 :: nat] ''ab'' = Some (Inr [''aa'', ''ba'', ''ab'', ''bb''])"
    by code_simp
  have h7: "head_positions CHR ''a'' [''aa'', ''ba'', ''ab'', ''bb''] = [0, 2]" by code_simp
  have h8: "gaps [0, 2] = [2]" by simp
  have h9: "length ''ab'' \<le> length (head_positions CHR ''a'' [''aa'', ''ba'', ''ab'', ''bb''])"
    unfolding h7 by simp
  have h11: "length ''ab'' < length [1, 2, 3, 4 :: nat]
               \<and> \<not> (length [1, 2, 3, 4 :: nat] = 4 \<and> length ''ab'' = 3)" by simp
  have h12: "2 \<le> length (head_positions CHR ''a'' [''aa'', ''ba'', ''ab'', ''bb''])"
    unfolding h7 by simp
  from hint_strings_head_gaps [OF h1 h2 h3 h4] h6
  have both: "(\<forall>c. length ''ab'' \<le> length (head_positions c [''aa'', ''ba'', ''ab'', ''bb'']) \<longrightarrow>
          (\<forall>g\<in>set (gaps (head_positions c [''aa'', ''ba'', ''ab'', ''bb''])).
             g \<le> (length [1, 2, 3, 4 :: nat] + length ''ab'' - 1) div length ''ab''))
        \<and> (length ''ab'' < length [1, 2, 3, 4 :: nat]
               \<and> \<not> (length [1, 2, 3, 4 :: nat] = 4 \<and> length ''ab'' = 3) \<longrightarrow>
             (\<forall>c. 2 \<le> length (head_positions c [''aa'', ''ba'', ''ab'', ''bb'']) \<longrightarrow>
                (\<exists>g\<in>set (gaps (head_positions c [''aa'', ''ba'', ''ab'', ''bb''])). 1 < g)))"
    by auto
  from both h9
  have "\<forall>g\<in>set (gaps (head_positions CHR ''a'' [''aa'', ''ba'', ''ab'', ''bb''])).
               g \<le> (length [1, 2, 3, 4 :: nat] + length ''ab'' - 1) div length ''ab''"
    by blast
  then have h10: "(2 :: nat) \<le> (length [1, 2, 3, 4 :: nat] + length ''ab'' - 1) div length ''ab''"
    unfolding h7 h8 by simp
  from both h11 h12
  have h13: "\<exists>g\<in>set (gaps (head_positions CHR ''a'' [''aa'', ''ba'', ''ab'', ''bb''])). 1 < g"
    by blast
  have h14: "gaps (head_positions CHR ''a'' [''aa'', ''ba'', ''ab'', ''bb'']) = [2]"
    unfolding h7 h8 by (rule refl)
  from h1 h2 h5 h6 h9 h10 h11 h13 h14 show ?thesis by blast
qed

text \<open>
  C4 as it was stated bounds the distance for every first character, by
  \<open>\<lceil>N / K\<rceil> + 1\<close>, and excludes that the labels with one first character all stand
  together when \<open>N > K\<close>. With ten
  elements and the charset \<^verbatim>\<open>abc\<close> the two labels that begin with \<^verbatim>\<open>c\<close> are six
  positions apart, and \<open>\<lceil>10 / 3\<rceil> + 1 = 5\<close>; with four elements the three labels that begin
  with \<^verbatim>\<open>b\<close> stand together.
\<close>

theorem shuffled_heads_counterexample:
  "hint_strings exact_ceil_log [1, 2, 3, 4, 5, 6, 7, 8, 9, 10 :: nat] ''abc''
     = Some (Inr [''aa'', ''ba'', ''bcb'', ''cab'', ''ab'', ''bb'', ''bcc'', ''ac'', ''bca'', ''caa''])
   \<and> head_positions CHR ''c'' [''aa'', ''ba'', ''bcb'', ''cab'', ''ab'', ''bb'', ''bcc'', ''ac'', ''bca'', ''caa''] = [3, 9]
   \<and> gaps [3, 9] = [6]
   \<and> \<not> (6 :: nat) \<le> (10 + 3 - 1) div 3 + 1
   \<and> hint_strings exact_ceil_log [1, 2, 3, 4 :: nat] ''abc'' = Some (Inr [''a'', ''bc'', ''ba'', ''bb''])
   \<and> head_positions CHR ''b'' [''a'', ''bc'', ''ba'', ''bb''] = [1, 2, 3]
   \<and> gaps [1, 2, 3] = [1, 1]
   \<and> length ''abc'' < length [1, 2, 3, 4 :: nat]"
  by code_simp

section \<open>The hint session: statements\<close>

text \<open>
  C5, as amended. On an Active session \<^verbatim>\<open>fire\<close> with a string that is not a key of the
  mapping raises \<^verbatim>\<open>KeyError\<close> and changes nothing. With a key, and with a non-empty
  \<^verbatim>\<open>href\<close> on the element when the target requires a link, it returns and has acted on
  the element as the target says, and on nothing else: for \<^verbatim>\<open>normal\<close>, \<^verbatim>\<open>tab\<close> and
  \<^verbatim>\<open>bgtab\<close> that open target is set and the element is clicked at its top left corner
  less the scroll position; for \<^verbatim>\<open>rapid\<close> the same with the open target \<^verbatim>\<open>bgtab\<close>; for
  \<^verbatim>\<open>yank\<close> and \<^verbatim>\<open>yank_primary\<close> the element's link, resolved against the base URL when
  it is relative, goes to the clipboard or the primary selection; for the three
  \<^verbatim>\<open>cmd\<close> targets that link goes to the command line with \<^verbatim>\<open>open\<close>, \<^verbatim>\<open>tabopen\<close> or
  \<^verbatim>\<open>backtabopen\<close>. With the target \<^verbatim>\<open>rapid\<close> nothing more happens and the manager is as
  it was; with any other target the labels are removed, the mapping is empty and the
  session Inactive.
\<close>

theorem fire_active:
  assumes act: "active self"
  shows "(map_of (elems self) typed = None \<longrightarrow> fire typed self = (Raised KeyError, [], self))
    \<and> (\<forall>e lab t fr b. map_of (elems self) typed = Some (e, lab) \<and> target self = Some t
            \<and> frame self = Some fr \<and> baseurl self = Some b
            \<and> (t \<in> set require_link \<longrightarrow> href e \<noteq> []) \<longrightarrow>
          (\<exists>self'. fire typed self =
               (Returned,
                (if t \<in> set [''normal'', ''tab'', ''bgtab''] then
                   [SetOpenTarget t, MouseClick e (click_point fr e)]
                 else if t = ''rapid'' then
                   [SetOpenTarget ''bgtab'', MouseClick e (click_point fr e)]
                 else if t \<in> set [''yank'', ''yank_primary''] then
                   [ClipboardSetText (if href_relative e then Resolved b (href e) else QUrl (href e))
                      (t = ''yank_primary''),
                    MessageInfo (''URL yanked to ''
                      @ (if t = ''yank_primary'' then ''primary selection'' else ''clipboard''))]
                 else
                   [SetCmdText (if t = ''cmd'' then ''open''
                                else if t = ''cmd_tab'' then ''tabopen'' else ''backtabopen'')
                      (if href_relative e then Resolved b (href e) else QUrl (href e))])
                @ (if t = ''rapid'' then []
                   else map (\<lambda>kv. RemoveLabel (snd (snd kv))) (elems self) @ [MessageClear]),
                self')
             \<and> (if t = ''rapid'' then self' = self else elems self' = [] \<and> inactive self')))"
proof (intro conjI allI impI)
  assume "map_of (elems self) typed = None"
  then show "fire typed self = (Raised KeyError, [], self)" by (simp add: fire_def)
next
  fix e lab t fr b
  assume a: "map_of (elems self) typed = Some (e, lab) \<and> target self = Some t
               \<and> frame self = Some fr \<and> baseurl self = Some b
               \<and> (t \<in> set require_link \<longrightarrow> href e \<noteq> [])"
  then have key: "map_of (elems self) typed = Some (e, lab)" and t: "target self = Some t"
    and fr: "frame self = Some fr" and b: "baseurl self = Some b"
    and link_ok: "t \<in> set require_link \<Longrightarrow> href e \<noteq> []" by simp_all
  from stop_active [OF act] fr
  have stop: "stop self = (Returned, map (\<lambda>kv. RemoveLabel (snd (snd kv))) (elems self) @ [MessageClear],
                self\<lparr>connections := removeAll (frame_id fr) (connections self),
                     elems := [], target := None, frame := None, input_mode := ''normal''\<rparr>)"
    by auto
  have known: "t \<in> set (map fst texts)" using act t by (simp add: active_def)
  define url where "url = (if href_relative e then Resolved b (href e) else QUrl (href e))"
  define link where "link = (if t \<in> set require_link then Some url else None)"
  have fin: "fire typed self = fire_finish self e link"
    using key t b link_ok by (auto simp: fire_def resolve_link_def link_def url_def)
  define acts where "acts =
    (if t \<in> set [''normal'', ''tab'', ''bgtab''] then
       [SetOpenTarget t, MouseClick e (click_point fr e)]
     else if t = ''rapid'' then
       [SetOpenTarget ''bgtab'', MouseClick e (click_point fr e)]
     else if t \<in> set [''yank'', ''yank_primary''] then
       [ClipboardSetText url (t = ''yank_primary''),
        MessageInfo (''URL yanked to ''
          @ (if t = ''yank_primary'' then ''primary selection'' else ''clipboard''))]
     else
       [SetCmdText (if t = ''cmd'' then ''open''
                    else if t = ''cmd_tab'' then ''tabopen'' else ''backtabopen'') url])"
  have "snd (fire_action self e link) = acts"
    unfolding fire_action_returns [OF fr t, of e link]
    using known
    by (auto simp: acts_def link_def require_link_def yank_def commands_def texts_def)
  then have fa: "fire_action self e link = (Returned, acts)"
    using fire_action_returns [OF fr t, of e link] by (metis prod.collapse fst_conv)
  define self' where "self' = (if t = ''rapid'' then self
       else self\<lparr>connections := removeAll (frame_id fr) (connections self),
                 elems := [], target := None, frame := None, input_mode := ''normal''\<rparr>)"
  have res: "fire typed self =
               (Returned,
                acts @ (if t = ''rapid'' then []
                        else map (\<lambda>kv. RemoveLabel (snd (snd kv))) (elems self) @ [MessageClear]),
                self')"
    by (simp add: fin fire_finish_def fa t stop self'_def)
  have st: "if t = ''rapid'' then self' = self else elems self' = [] \<and> inactive self'"
    by (simp add: self'_def inactive_def)
  show "\<exists>self'. fire typed self =
               (Returned,
                (if t \<in> set [''normal'', ''tab'', ''bgtab''] then
                   [SetOpenTarget t, MouseClick e (click_point fr e)]
                 else if t = ''rapid'' then
                   [SetOpenTarget ''bgtab'', MouseClick e (click_point fr e)]
                 else if t \<in> set [''yank'', ''yank_primary''] then
                   [ClipboardSetText (if href_relative e then Resolved b (href e) else QUrl (href e))
                      (t = ''yank_primary''),
                    MessageInfo (''URL yanked to ''
                      @ (if t = ''yank_primary'' then ''primary selection'' else ''clipboard''))]
                 else
                   [SetCmdText (if t = ''cmd'' then ''open''
                                else if t = ''cmd_tab'' then ''tabopen'' else ''backtabopen'')
                      (if href_relative e then Resolved b (href e) else QUrl (href e))])
                @ (if t = ''rapid'' then []
                   else map (\<lambda>kv. RemoveLabel (snd (snd kv))) (elems self) @ [MessageClear]),
                self')
             \<and> (if t = ''rapid'' then self' = self else elems self' = [] \<and> inactive self')"
    using res st unfolding acts_def url_def by blast
qed

theorem fire_active_witness:
  "active (sample_started ''links'' ''normal'')
     \<and> fire ''zz'' (sample_started ''links'' ''normal'')
          = (Raised KeyError, [], sample_started ''links'' ''normal'')
     \<and> fst (fire ''aa'' (sample_started ''links'' ''normal'')) = Returned
     \<and> fst (snd (fire ''aa'' (sample_started ''links'' ''normal'')))
          = [SetOpenTarget ''normal'', MouseClick (sample_elem 1 ''http://a/'') (10, 20),
             RemoveLabel (Label 1 ''aa''), RemoveLabel (Label 2 ''ba''), RemoveLabel (Label 3 ''ab''),
             MessageClear]
     \<and> inactive (snd (snd (fire ''aa'' (sample_started ''links'' ''normal''))))
     \<and> active (sample_started ''links'' ''yank'')
     \<and> fst (snd (fire ''ba'' (sample_started ''links'' ''yank'')))
          = [ClipboardSetText (QUrl ''http://b/'') False, MessageInfo ''URL yanked to clipboard'',
             RemoveLabel (Label 1 ''aa''), RemoveLabel (Label 2 ''ba''), RemoveLabel (Label 3 ''ab''),
             MessageClear]
     \<and> inactive (snd (snd (fire ''ba'' (sample_started ''links'' ''yank''))))"
proof -
  have h1: "active (sample_started ''links'' ''normal'')" by code_simp
  have h2: "map_of (elems (sample_started ''links'' ''normal'')) ''zz'' = None" by code_simp
  have h3: "map_of (elems (sample_started ''links'' ''normal'')) ''aa''
              = Some (sample_elem 1 ''http://a/'', Label 1 ''aa'')
            \<and> target (sample_started ''links'' ''normal'') = Some ''normal''
            \<and> frame (sample_started ''links'' ''normal'') = Some sample_frame
            \<and> baseurl (sample_started ''links'' ''normal'') = Some (QUrl ''http://page/'')
            \<and> (''normal'' \<in> set require_link \<longrightarrow> href (sample_elem 1 ''http://a/'') \<noteq> [])"
    by code_simp
  have h4: "active (sample_started ''links'' ''yank'')" by code_simp
  have h5: "map_of (elems (sample_started ''links'' ''yank'')) ''ba''
              = Some (sample_elem 2 ''http://b/'', Label 2 ''ba'')
            \<and> target (sample_started ''links'' ''yank'') = Some ''yank''
            \<and> frame (sample_started ''links'' ''yank'') = Some sample_frame
            \<and> baseurl (sample_started ''links'' ''yank'') = Some (QUrl ''http://page/'')
            \<and> (''yank'' \<in> set require_link \<longrightarrow> href (sample_elem 2 ''http://b/'') \<noteq> [])"
    by code_simp
  have e1: "fst (snd (fire ''aa'' (sample_started ''links'' ''normal'')))
          = [SetOpenTarget ''normal'', MouseClick (sample_elem 1 ''http://a/'') (10, 20),
             RemoveLabel (Label 1 ''aa''), RemoveLabel (Label 2 ''ba''), RemoveLabel (Label 3 ''ab''),
             MessageClear]"
    by code_simp
  have e2: "fst (snd (fire ''ba'' (sample_started ''links'' ''yank'')))
          = [ClipboardSetText (QUrl ''http://b/'') False, MessageInfo ''URL yanked to clipboard'',
             RemoveLabel (Label 1 ''aa''), RemoveLabel (Label 2 ''ba''), RemoveLabel (Label 3 ''ab''),
             MessageClear]"
    by code_simp
  have k: "fire ''zz'' (sample_started ''links'' ''normal'')
          = (Raised KeyError, [], sample_started ''links'' ''normal'')"
    using fire_active [OF h1, of "''zz''"] h2 by blast
  from fire_active [OF h1, of "''aa''"] h3 obtain self' where
    "fst (fire ''aa'' (sample_started ''links'' ''normal'')) = Returned"
    "snd (snd (fire ''aa'' (sample_started ''links'' ''normal''))) = self'"
    "if ''normal'' = ''rapid'' then self' = sample_started ''links'' ''normal''
     else elems self' = [] \<and> inactive self'"
    by fastforce
  then have n: "fst (fire ''aa'' (sample_started ''links'' ''normal'')) = Returned"
     "inactive (snd (snd (fire ''aa'' (sample_started ''links'' ''normal''))))"
    by simp_all
  from fire_active [OF h4, of "''ba''"] h5 obtain self'' where
    "snd (snd (fire ''ba'' (sample_started ''links'' ''yank''))) = self''"
    "if ''yank'' = ''rapid'' then self'' = sample_started ''links'' ''yank''
     else elems self'' = [] \<and> inactive self''"
    by fastforce
  then have y: "inactive (snd (snd (fire ''ba'' (sample_started ''links'' ''yank''))))"
    by simp
  from h1 k n e1 h4 e2 y show ?thesis by blast
qed

text \<open>
  C5 as it was stated has every \<^verbatim>\<open>fire\<close> with a key act on the element and, unless the
  target is \<^verbatim>\<open>rapid\<close>, end the session. On the sample page with the target \<^verbatim>\<open>yank\<close>
  the button has the label \<^verbatim>\<open>bb\<close> and no link: \<^verbatim>\<open>fire\<close> shows the error message, and
  the session stays Active with its four labels.
\<close>

theorem fire_unresolved_link_counterexample:
  "active (sample_started ''all'' ''yank'')
     \<and> map_of (elems (sample_started ''all'' ''yank'')) ''bb'' = Some (sample_elem 4 [], Label 4 ''bb'')
     \<and> target (sample_started ''all'' ''yank'') = Some ''yank''
     \<and> fire ''bb'' (sample_started ''all'' ''yank'')
          = (Returned, [MessageError ''No suitable link found for this element.''],
             sample_started ''all'' ''yank'')
     \<and> \<not> inactive (sample_started ''all'' ''yank'')
     \<and> map fst (elems (sample_started ''all'' ''yank'')) = [''aa'', ''ba'', ''ab'', ''bb'']"
  by code_simp

text \<open>
  C6. After \<^verbatim>\<open>handle_partial_key\<close> the mapping holds exactly the pairs it held before
  whose label starts with the typed string, nothing else of the manager has changed, and
  the session is Active exactly if it was: an empty mapping does not end it. The
  function has no outcome that raises.
\<close>

theorem handle_partial_key_prunes:
  "snd (handle_partial_key typed self)
     = self\<lparr>elems := filter (\<lambda>kv. prefix typed (fst kv)) (elems self)\<rparr>
   \<and> active (snd (handle_partial_key typed self)) = active self"
proof -
  have "snd (handle_partial_key typed self) = self\<lparr>elems := elems (snd (handle_partial_key typed self))\<rparr>"
    by (simp add: handle_partial_key_def Let_def)
  then have eq: "snd (handle_partial_key typed self)
                   = self\<lparr>elems := filter (\<lambda>kv. prefix typed (fst kv)) (elems self)\<rparr>"
    by (simp only: handle_partial_key_elems)
  then show ?thesis by (simp add: active_def split: option.splits)
qed

text \<open>
  C7, as amended. \<^verbatim>\<open>start\<close> with no visible element shows the error message
  \<^verbatim>\<open>No elements found.\<close> and returns: nothing is drawn, no signal is emitted, the
  mapping, the input mode and the connections are as they were. The attributes
  \<^verbatim>\<open>_target\<close>, \<^verbatim>\<open>_baseurl\<close> and \<^verbatim>\<open>_frame\<close> hold the arguments of the call: they are
  assigned before the elements are looked for.
\<close>

theorem start_no_elements:
  assumes "map_of SELECTORS mode = Some selector"
    and "filter (visible fr mode) (find_all_elements fr selector) = []"
  shows "start ceil_log chars self fr b mode t
           = Some (Returned, [MessageError ''No elements found.''],
                   self\<lparr>target := Some t, baseurl := Some b, frame := Some fr\<rparr>)"
  using assms by (simp add: start_def)

theorem start_no_elements_witness:
  "map_of SELECTORS ''images'' = Some ''img''
     \<and> filter (visible sample_frame ''images'') (find_all_elements sample_frame ''img'') = []
     \<and> start exact_ceil_log ''ab'' init sample_frame (QUrl ''http://page/'') ''images'' ''normal''
          = Some (Returned, [MessageError ''No elements found.''],
                  init\<lparr>target := Some ''normal'', baseurl := Some (QUrl ''http://page/''),
                       frame := Some sample_frame\<rparr>)"
proof -
  have h1: "map_of SELECTORS ''images'' = Some ''img''" by (simp add: SELECTORS_def)
  have h2: "filter (visible sample_frame ''images'') (find_all_elements sample_frame ''img'') = []"
    by code_simp
  from start_no_elements [OF h1 h2] h1 h2 show ?thesis by simp
qed

text \<open>
  C7 as it was stated leaves every attribute as it was. On the sample page, which has no
  image, \<^verbatim>\<open>start\<close> for images on a fresh manager sets \<^verbatim>\<open>_target\<close>, \<^verbatim>\<open>_baseurl\<close> and
  \<^verbatim>\<open>_frame\<close>, which were \<^verbatim>\<open>None\<close>.
\<close>

theorem start_no_elements_counterexample:
  "start exact_ceil_log ''ab'' init sample_frame (QUrl ''http://page/'') ''images'' ''normal''
     = Some (Returned, [MessageError ''No elements found.''],
             init\<lparr>target := Some ''normal'', baseurl := Some (QUrl ''http://page/''),
                  frame := Some sample_frame\<rparr>)
   \<and> target init = None \<and> baseurl init = None \<and> frame init = None
   \<and> init\<lparr>target := Some ''normal'', baseurl := Some (QUrl ''http://page/''),
           frame := Some sample_frame\<rparr> \<noteq> init"
  by code_simp




text \<open>
  C9, as amended. \<^verbatim>\<open>stop\<close> on an Active session returns, clears the mapping and leaves
  the session Inactive. On an Inactive session it raises \<^verbatim>\<open>AttributeError\<close>, at
  \<^verbatim>\<open>self._frame.contentsSizeChanged\<close> with \<^verbatim>\<open>_frame\<close> being \<^verbatim>\<open>None\<close>, and changes nothing.
\<close>

theorem stop_active_or_inactive:
  "(active self \<longrightarrow>
      (\<exists>events self'. stop self = (Returned, events, self') \<and> elems self' = [] \<and> inactive self'))
   \<and> (inactive self \<longrightarrow> stop self = (Raised AttributeError, [], self))"
proof (intro conjI impI)
  assume "active self"
  from stop_active [OF this] show "\<exists>events self'. stop self = (Returned, events, self') \<and> elems self' = [] \<and> inactive self'"
    by (auto simp: inactive_def)
next
  assume "inactive self"
  then show "stop self = (Raised AttributeError, [], self)"
    by (simp add: inactive_def stop_def)
qed

theorem stop_active_or_inactive_witness:
  "active (sample_started ''links'' ''normal'') \<and> inactive init
     \<and> fst (stop (sample_started ''links'' ''normal'')) = Returned
     \<and> inactive (snd (snd (stop (sample_started ''links'' ''normal''))))
     \<and> stop init = (Raised AttributeError, [], init)"
proof -
  have h1: "active (sample_started ''links'' ''normal'')" by code_simp
  have h2: "inactive init" by (simp add: inactive_def init_def)
  from stop_active_or_inactive [of "sample_started ''links'' ''normal''"] h1
  obtain events self' where "stop (sample_started ''links'' ''normal'') = (Returned, events, self')" "inactive self'"
    by blast
  moreover from stop_active_or_inactive [of init] h2
  have "stop init = (Raised AttributeError, [], init)" by blast
  ultimately show ?thesis using h1 h2 by simp
qed

text \<open>
  C9 as it was stated has \<^verbatim>\<open>stop\<close> return quietly on an Inactive session. On a fresh
  manager it raises.
\<close>

theorem stop_inactive_counterexample:
  "inactive init \<and> stop init = (Raised AttributeError, [], init)"
  by (simp add: inactive_def init_def stop_def)

text \<open>
  C10. When the target requires a link and the element under the typed label has an
  empty \<^verbatim>\<open>href\<close>, \<^verbatim>\<open>fire\<close> returns without raising, shows the error message and does
  nothing else: no action is taken on the element and the manager, with its mapping, is
  as it was, so an Active session stays Active.
\<close>

theorem fire_without_link:
  assumes "map_of (elems self) typed = Some (e, lab)"
    and "target self = Some t" and "t \<in> set require_link" and "href e = []"
  shows "fire typed self
           = (Returned, [MessageError ''No suitable link found for this element.''], self)"
  using assms by (simp add: fire_def resolve_link_def)

theorem fire_without_link_witness:
  "map_of (elems (sample_started ''all'' ''yank'')) ''bb'' = Some (sample_elem 4 [], Label 4 ''bb'')
     \<and> target (sample_started ''all'' ''yank'') = Some ''yank'' \<and> ''yank'' \<in> set require_link
     \<and> href (sample_elem 4 []) = []
     \<and> active (sample_started ''all'' ''yank'')
     \<and> fire ''bb'' (sample_started ''all'' ''yank'')
          = (Returned, [MessageError ''No suitable link found for this element.''],
             sample_started ''all'' ''yank'')"
proof -
  have h1: "map_of (elems (sample_started ''all'' ''yank'')) ''bb'' = Some (sample_elem 4 [], Label 4 ''bb'')"
    by code_simp
  have h2: "target (sample_started ''all'' ''yank'') = Some ''yank''" by code_simp
  have h3: "''yank'' \<in> set require_link" by (simp add: require_link_def)
  have h4: "href (sample_elem 4 []) = []" by (simp add: sample_elem_def)
  have h5: "active (sample_started ''all'' ''yank'')" by code_simp
  from fire_without_link [OF h1 h2 h3 h4] h1 h2 h3 h4 h5 show ?thesis by simp
qed

end
